theory Spec2Isabelle
  imports Complex_Main "HOL-Library.AList" "HOL-Library.Sublist"
begin

section \<open>Python values shared by the components\<close>

text \<open>
  Python floats are read as exact reals, so every comparison and subtraction below is the
  mathematical one.  Each public method takes the value that \<^verbatim>\<open>time.time()\<close> (or
  \<^verbatim>\<open>datetime.now()\<close>) returns during the call as the parameter \<open>now\<close>; the reads
  inside one call are taken to see the same instant.
\<close>

datatype py_error = ZeroDivisionError | StrategyError

section \<open>core/spike\_detector.py\<close>

record price_entry =
  price :: real
  timestamp :: real

record spike_info =
  direction :: string
  price_change :: real
  price_change_pct :: real
  old_price :: real
  new_price :: real
  time_window :: real
  detection_time :: real
  spike_id :: int

record spike_detector =
  min_move :: real
  time_window_min :: real
  time_window_max :: real
  cooldown_seconds :: real
  history_size :: nat
  price_history :: "price_entry list"
  last_spike_time :: real
  spike_count :: nat

text \<open>\<^verbatim>\<open>SpikeDetector.__init__\<close>: an empty bounded deque, no spike seen yet.\<close>

definition SpikeDetector :: "real \<Rightarrow> real \<Rightarrow> real \<Rightarrow> real \<Rightarrow> nat \<Rightarrow> spike_detector" where
  "SpikeDetector mm wmin wmax cd hs =
     \<lparr>min_move = mm, time_window_min = wmin, time_window_max = wmax,
      cooldown_seconds = cd, history_size = hs, price_history = [],
      last_spike_time = 0, spike_count = 0\<rparr>"

text \<open>\<^verbatim>\<open>deque(maxlen=n).append\<close>: the oldest entries fall out once the bound is passed.\<close>

definition deque_append :: "nat \<Rightarrow> 'a list \<Rightarrow> 'a \<Rightarrow> 'a list" where
  "deque_append n xs x = drop (length (xs @ [x]) - n) (xs @ [x])"

text \<open>\<^verbatim>\<open>add_price\<close>: the timestamp defaults to the clock when it is \<^verbatim>\<open>None\<close>.\<close>

definition add_price :: "real \<Rightarrow> real \<Rightarrow> real option \<Rightarrow> spike_detector \<Rightarrow> spike_detector" where
  "add_price now p ts d =
     d\<lparr>price_history :=
          deque_append (history_size d) (price_history d)
            \<lparr>price = p, timestamp = (case ts of None \<Rightarrow> now | Some t \<Rightarrow> t)\<rparr>\<rparr>"

text \<open>The test of the backward scan: the age of \<open>entry\<close> relative to \<open>current\<close>.\<close>

definition in_window :: "spike_detector \<Rightarrow> price_entry \<Rightarrow> price_entry \<Rightarrow> bool" where
  "in_window d current entry \<longleftrightarrow>
     time_window_min d \<le> timestamp current - timestamp entry \<and>
     timestamp current - timestamp entry \<le> time_window_max d"

text \<open>Python's \<^verbatim>\<open>int(x)\<close> on a float truncates towards zero.\<close>

definition py_int :: "real \<Rightarrow> int" where
  "py_int x = (if 0 \<le> x then \<lfloor>x\<rfloor> else \<lceil>x\<rceil>)"

text \<open>
  \<^verbatim>\<open>detect_spike\<close>.  The loop over \<^verbatim>\<open>reversed(list(self.price_history)[:-1])\<close> with its
  \<^verbatim>\<open>break\<close> is \<open>find\<close> on the reversed list without its last element.  The percentage is
  computed before the threshold test, so a past price of zero raises.  The field
  \<open>spike_id\<close> holds the number printed after \<^verbatim>\<open>spike_\<close>.
\<close>

definition detect_spike ::
  "real \<Rightarrow> spike_detector \<Rightarrow> py_error + (spike_info option \<times> spike_detector)" where
  "detect_spike now d =
     (if now - last_spike_time d < cooldown_seconds d then Inr (None, d)
      else if length (price_history d) < 2 then Inr (None, d)
      else
        let current = last (price_history d) in
        case find (in_window d current) (rev (butlast (price_history d))) of
          None \<Rightarrow> Inr (None, d)
        | Some past_entry \<Rightarrow>
            let change = price current - price past_entry in
            if price past_entry = 0 then Inl ZeroDivisionError
            else
              let pct = change / price past_entry * 100 in
              if min_move d \<le> \<bar>change\<bar> then
                Inr (Some \<lparr>direction = (if 0 < change then ''up'' else ''down''),
                           price_change = change,
                           price_change_pct = pct,
                           old_price = price past_entry,
                           new_price = price current,
                           time_window = timestamp current - timestamp past_entry,
                           detection_time = timestamp current,
                           spike_id = py_int (timestamp current)\<rparr>,
                     d\<lparr>last_spike_time := now, spike_count := spike_count d + 1\<rparr>)
              else Inr (None, d))"

text \<open>
  A caller's sequence of calls on one detector.  A call that raises leaves the detector as
  it was (the exception comes before any assignment), and the caller goes on.  The run
  returns, for every event emitted, the clock at that call and the event.
\<close>

datatype detector_call = AddPrice real real "real option" | DetectSpike real

fun run_detector :: "detector_call list \<Rightarrow> spike_detector \<Rightarrow> (real \<times> spike_info) list" where
  "run_detector [] d = []"
| "run_detector (AddPrice now p ts # cs) d = run_detector cs (add_price now p ts d)"
| "run_detector (DetectSpike now # cs) d =
     (case detect_spike now d of
        Inl e \<Rightarrow> run_detector cs d
      | Inr (None, d') \<Rightarrow> run_detector cs d'
      | Inr (Some ev, d') \<Rightarrow> (now, ev) # run_detector cs d')"

section \<open>core/connection\_pool.py\<close>

datatype ConnectionState = HEALTHY | DEGRADED | UNHEALTHY | CIRCUIT_OPEN

text \<open>
  One entry of the dictionary \<^verbatim>\<open>self.connections\<close>.  The registered connection object is
  never read by the pool and is left out; \<open>latency_samples\<close> is \<open>None\<close> until the key is
  created by the first \<^verbatim>\<open>record_latency\<close>.
\<close>

record conn_data =
  registered_at :: real
  last_check :: real
  error_count :: int
  latency_samples :: "real list option"

record connection_pool =
  latency_threshold_ms :: real
  error_threshold :: int
  circuit_timeout :: real
  connections :: "(string \<times> conn_data) list"
  error_count :: int
  circuit_opened_at :: real
  state :: ConnectionState

definition ConnectionPool :: "real \<Rightarrow> int \<Rightarrow> real \<Rightarrow> connection_pool" where
  "ConnectionPool lat thr tmo =
     \<lparr>latency_threshold_ms = lat, error_threshold = thr, circuit_timeout = tmo,
      connections = [], error_count = 0, circuit_opened_at = 0, state = HEALTHY\<rparr>"

definition register_connection :: "real \<Rightarrow> string \<Rightarrow> connection_pool \<Rightarrow> connection_pool" where
  "register_connection now name p =
     p\<lparr>connections :=
         AList.update name
           \<lparr>registered_at = now, last_check = 0, conn_data.error_count = 0,
            latency_samples = None\<rparr>
           (connections p)\<rparr>"

definition unregister_connection :: "string \<Rightarrow> connection_pool \<Rightarrow> connection_pool" where
  "unregister_connection name p =
     (case map_of (connections p) name of
        None \<Rightarrow> p
      | Some c \<Rightarrow> p\<lparr>connections := AList.delete name (connections p)\<rparr>)"

text \<open>\<^verbatim>\<open>_open_circuit\<close>\<close>

definition open_circuit :: "real \<Rightarrow> connection_pool \<Rightarrow> connection_pool" where
  "open_circuit now p =
     (if state p \<noteq> CIRCUIT_OPEN then p\<lparr>state := CIRCUIT_OPEN, circuit_opened_at := now\<rparr>
      else p)"

text \<open>\<^verbatim>\<open>_update_state\<close>: in the open state only the timer is looked at.\<close>

definition update_state :: "real \<Rightarrow> connection_pool \<Rightarrow> connection_pool" where
  "update_state now p =
     (if state p = CIRCUIT_OPEN then
        (if circuit_timeout p < now - circuit_opened_at p
         then p\<lparr>state := DEGRADED, error_count := 0\<rparr>
         else p)
      else if error_threshold p \<le> error_count p then open_circuit now p
      else if 0 < error_count p then p\<lparr>state := DEGRADED\<rparr>
      else p\<lparr>state := HEALTHY\<rparr>)"

definition record_success :: "real \<Rightarrow> string \<Rightarrow> connection_pool \<Rightarrow> connection_pool" where
  "record_success now name p =
     (let p1 = (case map_of (connections p) name of
                  None \<Rightarrow> p
                | Some c \<Rightarrow>
                    p\<lparr>connections :=
                        AList.update name (c\<lparr>conn_data.error_count := 0, last_check := now\<rparr>)
                          (connections p)\<rparr>);
          p2 = (if 0 < error_count p1 then p1\<lparr>error_count := max 0 (error_count p1 - 1)\<rparr>
                else p1)
      in update_state now p2)"

definition record_error :: "real \<Rightarrow> string \<Rightarrow> connection_pool \<Rightarrow> connection_pool" where
  "record_error now name p =
     (let p1 = (case map_of (connections p) name of
                  None \<Rightarrow> p
                | Some c \<Rightarrow>
                    p\<lparr>connections :=
                        AList.update name
                          (c\<lparr>conn_data.error_count := conn_data.error_count c + 1,
                             last_check := now\<rparr>)
                          (connections p)\<rparr>);
          p2 = p1\<lparr>error_count := error_count p1 + 1\<rparr>;
          p3 = update_state now p2
      in if error_threshold p3 \<le> error_count p3 then open_circuit now p3 else p3)"

definition record_latency :: "string \<Rightarrow> real \<Rightarrow> connection_pool \<Rightarrow> connection_pool" where
  "record_latency name latency_ms p =
     (case map_of (connections p) name of
        None \<Rightarrow> p
      | Some c \<Rightarrow>
          let appended = (case latency_samples c of None \<Rightarrow> [] | Some xs \<Rightarrow> xs) @ [latency_ms];
              samples = (if 100 < length appended then tl appended else appended);
              p1 = p\<lparr>connections :=
                       AList.update name (c\<lparr>latency_samples := Some samples\<rparr>) (connections p)\<rparr>;
              avg_latency = sum_list samples / real (length samples)
          in if latency_threshold_ms p < avg_latency \<and> state p = HEALTHY
             then p1\<lparr>state := DEGRADED\<rparr> else p1)"

definition is_healthy :: "connection_pool \<Rightarrow> bool" where
  "is_healthy p \<longleftrightarrow> state p = HEALTHY \<or> state p = DEGRADED"

definition can_execute :: "connection_pool \<Rightarrow> bool" where
  "can_execute p \<longleftrightarrow> state p \<noteq> CIRCUIT_OPEN"

text \<open>The calls a client can make on a pool, each with the clock it sees, and their runs.\<close>

datatype pool_call =
    RegisterConnection real string
  | UnregisterConnection string
  | RecordSuccess real string
  | RecordError real string
  | RecordLatency string real

fun pool_step :: "pool_call \<Rightarrow> connection_pool \<Rightarrow> connection_pool" where
  "pool_step (RegisterConnection now name) p = register_connection now name p"
| "pool_step (UnregisterConnection name) p = unregister_connection name p"
| "pool_step (RecordSuccess now name) p = record_success now name p"
| "pool_step (RecordError now name) p = record_error now name p"
| "pool_step (RecordLatency name ms) p = record_latency name ms p"

definition run_pool :: "pool_call list \<Rightarrow> connection_pool \<Rightarrow> connection_pool" where
  "run_pool calls p = fold pool_step calls p"

section \<open>core/market\_scanner.py\<close>

text \<open>
  A market is the JSON object of the catalog, read at the types the scanner expects:
  text fields that are absent are the empty string (the default of \<^verbatim>\<open>market.get\<close>), and
  \<^verbatim>\<open>end_date_iso\<close> is absent, a string or a number.  The key \<^verbatim>\<open>id\<close> is the field
  \<open>market_id\<close>, and the scanner's \<^verbatim>\<open>keywords\<close> is the field \<open>keywords'\<close>.  A Python
  dictionary keeps its keys in insertion order and is an association list with distinct
  keys.
\<close>

record token =
  outcome :: string
  token_id :: "string option"

datatype end_date = EndAbsent | EndStr string | EndNum int

record market =
  market_id :: "string option"
  question :: string
  description :: string
  slug :: string
  end_date_iso :: end_date
  tokens :: "token list"
  clobTokenIds :: "string list"

record scanner =
  keywords' :: "string list"
  exclude_keywords :: "string list"
  max_markets :: int
  scan_interval :: int
  min_time_remaining :: int
  active_markets :: "(string option \<times> market) list"
  market_tokens :: "(string option \<times> string \<times> string) list"
  running :: bool
  last_scan_time :: real

text \<open>\<^verbatim>\<open>str.lower\<close> on ASCII text.\<close>

definition lower_char :: "char \<Rightarrow> char" where
  "lower_char c =
     (if (65::nat) \<le> of_char c \<and> of_char c \<le> (90::nat)
      then char_of (of_char c + (32::nat)) else c)"

definition lower :: "string \<Rightarrow> string" where
  "lower s = map lower_char s"

definition MultiMarketScanner :: "string list \<Rightarrow> string list \<Rightarrow> int \<Rightarrow> int \<Rightarrow> int \<Rightarrow> scanner" where
  "MultiMarketScanner kws excl maxm interval min_time =
     \<lparr>keywords' = map lower kws, exclude_keywords = map lower excl, max_markets = maxm,
      scan_interval = interval, min_time_remaining = min_time,
      active_markets = [], market_tokens = [], running = False, last_scan_time = 0\<rparr>"

text \<open>\<^verbatim>\<open>_matches_criteria\<close>; \<^verbatim>\<open>kw in combined_text\<close> is the contiguous-sublist test.\<close>

definition matches_criteria :: "scanner \<Rightarrow> market \<Rightarrow> bool" where
  "matches_criteria sc m =
     (let combined_text = lower (question m) @ '' '' @ lower (description m) @ '' '' @ lower (slug m);
          has_keyword = list_ex (\<lambda>kw. sublist kw combined_text) (keywords' sc);
          has_excluded = list_ex (\<lambda>kw. sublist kw combined_text) (exclude_keywords sc)
      in has_keyword \<and> \<not> has_excluded)"

text \<open>
  \<^verbatim>\<open>_get_end_timestamp\<close>.  \<^verbatim>\<open>datetime.fromisoformat\<close> belongs to the Python library and is
  the parameter \<open>fromisoformat\<close>: it gives the epoch second of a string it can parse and
  \<open>None\<close> where it raises.
\<close>

definition replace_Z :: "string \<Rightarrow> string" where
  "replace_Z s = concat (map (\<lambda>c. if c = CHR ''Z'' then ''+00:00'' else [c]) s)"

definition get_end_timestamp :: "(string \<Rightarrow> int option) \<Rightarrow> market \<Rightarrow> int option" where
  "get_end_timestamp fromisoformat m =
     (case end_date_iso m of
        EndAbsent \<Rightarrow> None
      | EndStr s \<Rightarrow> if s = [] then None else fromisoformat (replace_Z s)
      | EndNum n \<Rightarrow> if n = 0 then None else Some n)"

text \<open>\<^verbatim>\<open>_has_sufficient_time\<close>; a timestamp of zero is falsy, as \<open>None\<close> is.\<close>

definition has_sufficient_time :: "(string \<Rightarrow> int option) \<Rightarrow> int \<Rightarrow> scanner \<Rightarrow> market \<Rightarrow> bool" where
  "has_sufficient_time fromisoformat now sc m =
     (case get_end_timestamp fromisoformat m of
        None \<Rightarrow> False
      | Some end_time \<Rightarrow> if end_time = 0 then False else min_time_remaining sc < end_time - now)"

text \<open>Truth value of an optional string: \<^verbatim>\<open>None\<close> and \<^verbatim>\<open>""\<close> are falsy.\<close>

definition truthy :: "string option \<Rightarrow> bool" where
  "truthy t = (case t of None \<Rightarrow> False | Some s \<Rightarrow> s \<noteq> [])"

text \<open>\<^verbatim>\<open>_extract_tokens\<close>: the loop over the tokens array, then the fallbacks.\<close>

fun token_loop :: "token list \<Rightarrow> string option \<times> string option \<Rightarrow> string option \<times> string option" where
  "token_loop [] (yes_token, no_token) = (yes_token, no_token)"
| "token_loop (t # ts) (yes_token, no_token) =
     (let oc = lower (outcome t) in
      if sublist ''yes'' oc \<or> sublist ''up'' oc \<or> sublist ''higher'' oc
        then token_loop ts (token_id t, no_token)
      else if sublist ''no'' oc \<or> sublist ''down'' oc \<or> sublist ''lower'' oc
        then token_loop ts (yes_token, token_id t)
      else token_loop ts (yes_token, no_token))"

definition extract_tokens :: "market \<Rightarrow> string option \<times> string option" where
  "extract_tokens m =
     (if 2 \<le> length (tokens m) then
        (case token_loop (tokens m) (None, None) of
           (yes_token, no_token) \<Rightarrow>
             if \<not> truthy yes_token \<or> \<not> truthy no_token
             then (token_id (tokens m ! 0), token_id (tokens m ! 1))
             else (yes_token, no_token))
      else if 2 \<le> length (clobTokenIds m)
        then (Some (clobTokenIds m ! 0), Some (clobTokenIds m ! 1))
      else (None, None))"

text \<open>
  The loop of \<^verbatim>\<open>scan_markets\<close> over the fetched catalog, with its \<^verbatim>\<open>continue\<close>s and its
  \<^verbatim>\<open>break\<close>.  The capacity is tested only after a market has been registered.
\<close>

fun scan_loop ::
  "(string \<Rightarrow> int option) \<Rightarrow> int \<Rightarrow> market list \<Rightarrow> scanner \<times> market list \<Rightarrow> scanner \<times> market list" where
  "scan_loop fromisoformat now [] (sc, new_markets) = (sc, new_markets)"
| "scan_loop fromisoformat now (m # ms) (sc, new_markets) =
     (if market_id m \<in> fst ` set (active_markets sc)
        then scan_loop fromisoformat now ms (sc, new_markets)
      else if \<not> matches_criteria sc m
        then scan_loop fromisoformat now ms (sc, new_markets)
      else if \<not> has_sufficient_time fromisoformat now sc m
        then scan_loop fromisoformat now ms (sc, new_markets)
      else
        (case extract_tokens m of
           (yes_token, no_token) \<Rightarrow>
             if \<not> truthy yes_token \<or> \<not> truthy no_token
               then scan_loop fromisoformat now ms (sc, new_markets)
             else
               let sc' = sc\<lparr>active_markets := AList.update (market_id m) m (active_markets sc),
                            market_tokens :=
                              AList.update (market_id m) (the yes_token, the no_token)
                                (market_tokens sc)\<rparr>
               in if max_markets sc' \<le> int (length (active_markets sc'))
                  then (sc', new_markets @ [m])
                  else scan_loop fromisoformat now ms (sc', new_markets @ [m])))"

text \<open>
  The answer of the catalog endpoint: the request raised (time-out, no session), or it gave
  a status and a list of markets.  \<^verbatim>\<open>scan_markets\<close> returns the new markets.
\<close>

datatype http_response = RequestFailed | Response int "market list"

definition scan_markets ::
  "(string \<Rightarrow> int option) \<Rightarrow> real \<Rightarrow> http_response \<Rightarrow> scanner \<Rightarrow> scanner \<times> market list" where
  "scan_markets fromisoformat now response sc =
     (case response of
        RequestFailed \<Rightarrow> (sc, [])
      | Response status markets \<Rightarrow>
          if status \<noteq> 200 then (sc, [])
          else
            (case scan_loop fromisoformat (py_int now) markets (sc, []) of
               (sc', new_markets) \<Rightarrow> (sc'\<lparr>last_scan_time := now\<rparr>, new_markets)))"

text \<open>\<^verbatim>\<open>_cleanup_closed_markets\<close>\<close>

definition closed_market_ids :: "(string \<Rightarrow> int option) \<Rightarrow> int \<Rightarrow> scanner \<Rightarrow> string option list" where
  "closed_market_ids fromisoformat now sc =
     map fst
       (filter
          (\<lambda>(k, m). case get_end_timestamp fromisoformat m of
                       None \<Rightarrow> False
                     | Some end_time \<Rightarrow> end_time \<noteq> 0 \<and> end_time - now \<le> 0)
          (active_markets sc))"

definition cleanup_closed_markets :: "(string \<Rightarrow> int option) \<Rightarrow> real \<Rightarrow> scanner \<Rightarrow> scanner" where
  "cleanup_closed_markets fromisoformat now sc =
     fold (\<lambda>k s. s\<lparr>active_markets := AList.delete k (active_markets s),
                    market_tokens := AList.delete k (market_tokens s)\<rparr>)
       (closed_market_ids fromisoformat (py_int now) sc) sc"

text \<open>
  One round of \<^verbatim>\<open>_scanning_loop\<close> (the body of \<^verbatim>\<open>while self.running\<close>): clean up, then scan
  only when the registry is below \<open>max_markets\<close>.  \<open>now\<close> is the clock at the clean-up and
  \<open>now'\<close> the clock at the scan.
\<close>

definition scanning_loop_round ::
  "(string \<Rightarrow> int option) \<Rightarrow> real \<Rightarrow> real \<Rightarrow> http_response \<Rightarrow> scanner \<Rightarrow> scanner" where
  "scanning_loop_round fromisoformat now now' response sc =
     (if \<not> running sc then sc
      else
        let sc1 = cleanup_closed_markets fromisoformat now sc in
        if int (length (active_markets sc1)) < max_markets sc1
        then fst (scan_markets fromisoformat now' response sc1)
        else sc1)"

text \<open>\<^verbatim>\<open>start\<close> (the first scan) and \<^verbatim>\<open>stop\<close>.\<close>

definition scanner_start ::
  "(string \<Rightarrow> int option) \<Rightarrow> real \<Rightarrow> http_response \<Rightarrow> scanner \<Rightarrow> scanner" where
  "scanner_start fromisoformat now response sc =
     (if running sc then sc
      else fst (scan_markets fromisoformat now response (sc\<lparr>running := True\<rparr>)))"

definition scanner_stop :: "scanner \<Rightarrow> scanner" where
  "scanner_stop sc = sc\<lparr>running := False\<rparr>"

definition get_active_markets :: "scanner \<Rightarrow> market list" where
  "get_active_markets sc = map snd (active_markets sc)"

definition get_market_tokens :: "scanner \<Rightarrow> string option \<Rightarrow> (string \<times> string) option" where
  "get_market_tokens sc mid = map_of (market_tokens sc) mid"

definition get_market_by_id :: "scanner \<Rightarrow> string option \<Rightarrow> market option" where
  "get_market_by_id sc mid = map_of (active_markets sc) mid"

text \<open>The operations that change the registry, as the owner runs them.\<close>

datatype scanner_call =
    Start real http_response
  | Stop
  | LoopRound real real http_response
  | ScanMarkets real http_response
  | CleanupClosedMarkets real

fun scanner_step :: "(string \<Rightarrow> int option) \<Rightarrow> scanner_call \<Rightarrow> scanner \<Rightarrow> scanner" where
  "scanner_step f (Start now r) sc = scanner_start f now r sc"
| "scanner_step f Stop sc = scanner_stop sc"
| "scanner_step f (LoopRound now now' r) sc = scanning_loop_round f now now' r sc"
| "scanner_step f (ScanMarkets now r) sc = fst (scan_markets f now r sc)"
| "scanner_step f (CleanupClosedMarkets now) sc = cleanup_closed_markets f now sc"

definition run_scanner :: "(string \<Rightarrow> int option) \<Rightarrow> scanner_call list \<Rightarrow> scanner \<Rightarrow> scanner" where
  "run_scanner f calls sc = fold (scanner_step f) calls sc"

section \<open>core/websocket\_manager.py\<close>

text \<open>
  The manager between two suspension points is one step.  What the network answers is the
  input of the step: whether \<^verbatim>\<open>ws_connect\<close> succeeds, which frame \<^verbatim>\<open>receive\<close> gives,
  whether \<^verbatim>\<open>send_json\<close> raises.  \<open>ws\<close> is \<open>None\<close> before the first connection, and
  otherwise tells whether the socket object is still open.  The two background tasks are
  the flag \<open>websocket_loop_alive\<close> and the counter \<open>polling_loops\<close> of polling tasks
  created; \<open>connect_calls\<close> counts the calls of \<^verbatim>\<open>_try_websocket_connection\<close> and
  \<open>sent\<close> lists the frames handed to the socket.
\<close>

datatype ConnectionMode = WEBSOCKET | REST_POLLING | DISCONNECTED

datatype socket = OpenSocket | ClosedSocket

datatype frame = TEXT "real option" | CLOSED | ERROR | OtherFrame

record websocket_manager =
  reconnect_delay :: int
  max_reconnect_attempts :: int
  mode :: ConnectionMode
  ws :: "socket option"
  running :: bool
  reconnect_attempts :: int
  last_message_time :: real
  message_count :: nat
  latency_samples :: "real list"
  subscribed_markets :: "string set"
  websocket_loop_alive :: bool
  polling_loops :: nat
  connect_calls :: nat
  sent :: "(string \<times> string) list"

definition WebSocketManager :: "int \<Rightarrow> int \<Rightarrow> websocket_manager" where
  "WebSocketManager delay max_attempts =
     \<lparr>reconnect_delay = delay, max_reconnect_attempts = max_attempts, mode = DISCONNECTED,
      ws = None, running = False, reconnect_attempts = 0, last_message_time = 0,
      message_count = 0, latency_samples = [], subscribed_markets = {},
      websocket_loop_alive = False, polling_loops = 0, connect_calls = 0, sent = []\<rparr>"

text \<open>\<^verbatim>\<open>_try_websocket_connection\<close>: the socket is replaced only when the connection succeeds.\<close>

definition try_websocket_connection :: "bool \<Rightarrow> websocket_manager \<Rightarrow> bool \<times> websocket_manager" where
  "try_websocket_connection ok m =
     (if ok then (True, m\<lparr>ws := Some OpenSocket, connect_calls := connect_calls m + 1\<rparr>)
      else (False, m\<lparr>connect_calls := connect_calls m + 1\<rparr>))"

definition ws_start :: "bool \<Rightarrow> websocket_manager \<Rightarrow> websocket_manager" where
  "ws_start ok m =
     (if running m then m
      else
        (case try_websocket_connection ok (m\<lparr>running := True\<rparr>) of
           (ws_success, m1) \<Rightarrow>
             if ws_success then m1\<lparr>mode := WEBSOCKET, websocket_loop_alive := True\<rparr>
             else m1\<lparr>mode := REST_POLLING, polling_loops := polling_loops m1 + 1\<rparr>))"

definition ws_stop :: "websocket_manager \<Rightarrow> websocket_manager" where
  "ws_stop m =
     m\<lparr>running := False,
       ws := (case ws m of None \<Rightarrow> None | Some s \<Rightarrow> Some ClosedSocket),
       mode := DISCONNECTED\<rparr>"

text \<open>
  \<^verbatim>\<open>subscribe_market\<close> and \<^verbatim>\<open>unsubscribe_market\<close>; \<open>send_ok\<close> says whether
  \<^verbatim>\<open>send_json\<close> returns (its exception is caught and logged).  \<^verbatim>\<open>self.ws\<close> is truthy once a
  socket object exists.
\<close>

definition subscribe_market :: "bool \<Rightarrow> string \<Rightarrow> websocket_manager \<Rightarrow> websocket_manager" where
  "subscribe_market send_ok token m =
     (if token \<in> subscribed_markets m then m
      else
        let m1 = m\<lparr>subscribed_markets := insert token (subscribed_markets m)\<rparr> in
        if mode m1 = WEBSOCKET \<and> ws m1 \<noteq> None \<and> send_ok
        then m1\<lparr>sent := sent m1 @ [(''subscribe'', token)]\<rparr>
        else m1)"

definition unsubscribe_market :: "bool \<Rightarrow> string \<Rightarrow> websocket_manager \<Rightarrow> websocket_manager" where
  "unsubscribe_market send_ok token m =
     (if token \<notin> subscribed_markets m then m
      else
        let m1 = m\<lparr>subscribed_markets := subscribed_markets m - {token}\<rparr> in
        if mode m1 = WEBSOCKET \<and> ws m1 \<noteq> None \<and> send_ok
        then m1\<lparr>sent := sent m1 @ [(''unsubscribe'', token)]\<rparr>
        else m1)"

text \<open>
  \<^verbatim>\<open>_handle_message\<close> on a message that parses; its argument is the latency in
  milliseconds when the message carries a timestamp.  The callback is the caller's.
\<close>

definition handle_message :: "real \<Rightarrow> real option \<Rightarrow> websocket_manager \<Rightarrow> websocket_manager" where
  "handle_message receive_time latency m =
     (let samples =
            (case latency of
               None \<Rightarrow> latency_samples m
             | Some l \<Rightarrow>
                 let appended = latency_samples m @ [l]
                 in if 100 < length appended then tl appended else appended)
      in m\<lparr>latency_samples := samples, last_message_time := receive_time,
            message_count := message_count m + 1\<rparr>)"

text \<open>
  One pass through the body of \<^verbatim>\<open>while self.running\<close> in \<^verbatim>\<open>_websocket_loop\<close>.  Without a
  live socket the loop either gives up (the attempts have reached the maximum: polling
  mode, a polling task, \<^verbatim>\<open>return\<close>) or counts one more attempt and tries to connect; the
  subscriptions it then sends again are all in \<open>subscribed_markets\<close> already, so each
  \<^verbatim>\<open>subscribe_market\<close> returns at once.  With a live socket it receives one frame; a
  \<^verbatim>\<open>CLOSED\<close> or \<^verbatim>\<open>ERROR\<close> frame leaves the loop by \<^verbatim>\<open>break\<close>.
\<close>

definition websocket_loop_pass ::
  "real \<Rightarrow> bool \<Rightarrow> frame \<Rightarrow> websocket_manager \<Rightarrow> websocket_manager" where
  "websocket_loop_pass now connect_ok msg m =
     (if \<not> websocket_loop_alive m then m
      else if \<not> running m then m\<lparr>websocket_loop_alive := False\<rparr>
      else if ws m = None \<or> ws m = Some ClosedSocket then
        (if max_reconnect_attempts m \<le> reconnect_attempts m
         then m\<lparr>mode := REST_POLLING, polling_loops := polling_loops m + 1,
                websocket_loop_alive := False\<rparr>
         else
           (case try_websocket_connection connect_ok
                   (m\<lparr>reconnect_attempts := reconnect_attempts m + 1\<rparr>) of
              (ok, m1) \<Rightarrow> if ok then m1\<lparr>reconnect_attempts := 0\<rparr> else m1))
      else
        (case msg of
           TEXT latency \<Rightarrow> handle_message now latency m
         | CLOSED \<Rightarrow> m\<lparr>websocket_loop_alive := False\<rparr>
         | ERROR \<Rightarrow> m\<lparr>websocket_loop_alive := False\<rparr>
         | OtherFrame \<Rightarrow> m))"

text \<open>
  One pass of \<^verbatim>\<open>_rest_polling_loop\<close>: every subscribed market is polled and each answer
  goes through \<^verbatim>\<open>_handle_message\<close>; \<open>answers\<close> lists the latencies of the polls that
  returned status 200.
\<close>

definition rest_polling_pass :: "real \<Rightarrow> real list \<Rightarrow> websocket_manager \<Rightarrow> websocket_manager" where
  "rest_polling_pass now answers m =
     (if running m \<and> mode m = REST_POLLING \<and> 0 < polling_loops m
      then fold (\<lambda>l. handle_message now (Some l)) answers m
      else m)"

text \<open>The steps of a manager; the peer can also close the socket at any moment.\<close>

datatype ws_call =
    WsStart bool
  | WsStop
  | Subscribe bool string
  | Unsubscribe bool string
  | LoopPass real bool frame
  | PollingPass real "real list"
  | PeerCloses

fun ws_step :: "ws_call \<Rightarrow> websocket_manager \<Rightarrow> websocket_manager" where
  "ws_step (WsStart ok) m = ws_start ok m"
| "ws_step WsStop m = ws_stop m"
| "ws_step (Subscribe send_ok token) m = subscribe_market send_ok token m"
| "ws_step (Unsubscribe send_ok token) m = unsubscribe_market send_ok token m"
| "ws_step (LoopPass now ok msg) m = websocket_loop_pass now ok msg m"
| "ws_step (PollingPass now answers) m = rest_polling_pass now answers m"
| "ws_step PeerCloses m =
     m\<lparr>ws := (case ws m of None \<Rightarrow> None | Some s \<Rightarrow> Some ClosedSocket)\<rparr>"

definition run_ws :: "ws_call list \<Rightarrow> websocket_manager \<Rightarrow> websocket_manager" where
  "run_ws calls m = fold ws_step calls m"

section \<open>strategy\_orchestrator.py\<close>

text \<open>
  A strategy object as the orchestrator sees it: the name of its class, its optional
  attributes \<^verbatim>\<open>name\<close> and \<^verbatim>\<open>enabled\<close>, and what its three methods answer in this cycle
  (\<open>Inl\<close> when the method raises).  A signal and a position id are opaque texts; a scan
  that finds nothing, or a falsy id, is \<open>None\<close>.
\<close>

type_synonym signal = string

record strategy =
  class_name :: string
  name :: "string option"
  enabled :: "bool option"
  scan_opportunities :: "py_error + signal option"
  execute_trade :: "signal \<Rightarrow> bool \<Rightarrow> py_error + string option"
  monitor_positions :: "bool \<Rightarrow> py_error + string list"

record orchestrator =
  total_capital :: real
  strategies :: "strategy list"
  capital_allocated :: "(string \<times> real) list"

record cycle_stats =
  opportunities_found :: nat
  trades_executed :: nat
  positions_closed :: nat
  strategies_active :: nat

text \<open>\<^verbatim>\<open>_get_strategy_key\<close>: the class name decides first, then the \<^verbatim>\<open>name\<close> attribute.\<close>

definition get_strategy_key :: "strategy \<Rightarrow> string" where
  "get_strategy_key s =
     (if sublist ''Maker'' (class_name s) then ''maker''
      else if sublist ''Probability'' (class_name s) then ''probability''
      else if sublist ''Latency'' (class_name s) then ''latency''
      else if sublist ''ML'' (class_name s) \<or> sublist ''Pattern'' (class_name s) then ''ml_pattern''
      else
        (case name s of
           None \<Rightarrow> ''maker''
         | Some n \<Rightarrow>
             if sublist ''Maker'' n then ''maker''
             else if sublist ''Probability'' n then ''probability''
             else if sublist ''Latency'' n then ''latency''
             else if sublist ''ML'' n \<or> sublist ''Pattern'' n then ''ml_pattern''
             else ''maker''))"

text \<open>\<^verbatim>\<open>_allocate_capital\<close> over the table \<^verbatim>\<open>config.CAPITAL_ALLOCATION\<close>.\<close>

definition CAPITAL_ALLOCATION :: "(string \<times> real) list" where
  "CAPITAL_ALLOCATION =
     [(''maker'', 0.40), (''probability'', 0.30), (''latency'', 0.20), (''ml_pattern'', 0.10)]"

definition allocate_capital :: "(string \<times> real) list \<Rightarrow> orchestrator \<Rightarrow> orchestrator" where
  "allocate_capital allocation orch =
     fold (\<lambda>s o'. case map_of allocation (get_strategy_key s) of
                     None \<Rightarrow> o'
                   | Some share \<Rightarrow>
                       o'\<lparr>capital_allocated :=
                            AList.update (get_strategy_key s) (total_capital o' * share)
                              (capital_allocated o')\<rparr>)
       (strategies orch) orch"

text \<open>The constructor, given the strategy objects that \<^verbatim>\<open>_initialize_strategies\<close> built.\<close>

definition StrategyOrchestrator :: "(string \<times> real) list \<Rightarrow> strategy list \<Rightarrow> real \<Rightarrow> orchestrator" where
  "StrategyOrchestrator allocation ss capital =
     allocate_capital allocation
       \<lparr>total_capital = capital, strategies = ss, capital_allocated = []\<rparr>"

definition is_enabled :: "strategy \<Rightarrow> bool" where
  "is_enabled s = (case enabled s of None \<Rightarrow> True | Some b \<Rightarrow> b)"

text \<open>Phase 1 of \<^verbatim>\<open>run_cycle\<close>: a strategy whose scan raises is logged and passed over.\<close>

fun scan_phase ::
  "strategy list \<Rightarrow> (strategy \<times> signal) list \<times> cycle_stats \<Rightarrow> (strategy \<times> signal) list \<times> cycle_stats" where
  "scan_phase [] (opportunities, stats) = (opportunities, stats)"
| "scan_phase (s # ss) (opportunities, stats) =
     (if \<not> is_enabled s then scan_phase ss (opportunities, stats)
      else
        let stats1 = stats\<lparr>strategies_active := strategies_active stats + 1\<rparr> in
        case scan_opportunities s of
          Inl e \<Rightarrow> scan_phase ss (opportunities, stats1)
        | Inr None \<Rightarrow> scan_phase ss (opportunities, stats1)
        | Inr (Some sig) \<Rightarrow>
            scan_phase ss
              (opportunities @ [(s, sig)],
               stats1\<lparr>opportunities_found := opportunities_found stats1 + 1\<rparr>))"

text \<open>
  Phase 2: the inner loop over the opportunities for one priority key, and the outer loop
  over the keys.  The second component of the result lists the calls of
  \<^verbatim>\<open>execute_trade\<close> in the order they are made.  A call that raises is not caught here: it
  leaves both loops, and \<open>Inl\<close> carries what had been done until then.
\<close>

fun execute_opportunities ::
  "orchestrator \<Rightarrow> bool \<Rightarrow> string \<Rightarrow> (strategy \<times> signal) list \<Rightarrow>
   cycle_stats \<times> (strategy \<times> signal) list \<Rightarrow>
   (cycle_stats \<times> (strategy \<times> signal) list) + (cycle_stats \<times> (strategy \<times> signal) list)" where
  "execute_opportunities orch dry_run priority_key [] (stats, calls) = Inr (stats, calls)"
| "execute_opportunities orch dry_run priority_key ((s, sig) # opps) (stats, calls) =
     (if get_strategy_key s = priority_key then
        (let allocated =
               (case map_of (capital_allocated orch) (get_strategy_key s) of
                  None \<Rightarrow> 0 | Some a \<Rightarrow> a)
         in if 0 < allocated then
              (case execute_trade s sig dry_run of
                 Inl e \<Rightarrow> Inl (stats, calls @ [(s, sig)])
               | Inr position_id \<Rightarrow>
                   execute_opportunities orch dry_run priority_key opps
                     (if truthy position_id
                      then stats\<lparr>trades_executed := trades_executed stats + 1\<rparr>
                      else stats,
                      calls @ [(s, sig)]))
            else execute_opportunities orch dry_run priority_key opps (stats, calls))
      else execute_opportunities orch dry_run priority_key opps (stats, calls))"

fun execute_phase ::
  "orchestrator \<Rightarrow> bool \<Rightarrow> string list \<Rightarrow> (strategy \<times> signal) list \<Rightarrow>
   cycle_stats \<times> (strategy \<times> signal) list \<Rightarrow>
   (cycle_stats \<times> (strategy \<times> signal) list) + (cycle_stats \<times> (strategy \<times> signal) list)" where
  "execute_phase orch dry_run [] opps acc = Inr acc"
| "execute_phase orch dry_run (priority_key # keys) opps acc =
     (case execute_opportunities orch dry_run priority_key opps acc of
        Inl acc' \<Rightarrow> Inl acc'
      | Inr acc' \<Rightarrow> execute_phase orch dry_run keys opps acc')"

definition priority_order :: "string list" where
  "priority_order = [''latency'', ''probability'', ''maker'', ''ml_pattern'']"

text \<open>Phase 3: a strategy whose monitor raises is logged and passed over.\<close>

fun monitor_phase :: "bool \<Rightarrow> strategy list \<Rightarrow> cycle_stats \<Rightarrow> cycle_stats" where
  "monitor_phase dry_run [] stats = stats"
| "monitor_phase dry_run (s # ss) stats =
     (if \<not> is_enabled s then monitor_phase dry_run ss stats
      else
        case monitor_positions s dry_run of
          Inl e \<Rightarrow> monitor_phase dry_run ss stats
        | Inr closed_ids \<Rightarrow>
            monitor_phase dry_run ss
              (stats\<lparr>positions_closed := positions_closed stats + length closed_ids\<rparr>))"

text \<open>
  \<^verbatim>\<open>run_cycle\<close> returns the statistics; the model returns with them the calls of
  \<^verbatim>\<open>execute_trade\<close> it made.  An exception out of phase 2 is caught by the outer handler,
  which skips phase 3.
\<close>

definition run_cycle :: "bool \<Rightarrow> orchestrator \<Rightarrow> cycle_stats \<times> (strategy \<times> signal) list" where
  "run_cycle dry_run orch =
     (case scan_phase (strategies orch)
             ([], \<lparr>opportunities_found = 0, trades_executed = 0, positions_closed = 0,
                   strategies_active = 0\<rparr>) of
        (opportunities, stats) \<Rightarrow>
          (case execute_phase orch dry_run priority_order opportunities (stats, []) of
             Inl (stats', calls) \<Rightarrow> (stats', calls)
           | Inr (stats', calls) \<Rightarrow> (monitor_phase dry_run (strategies orch) stats', calls)))"

section \<open>Concrete inputs\<close>

subsection \<open>Spike detector\<close>

text \<open>
  The detector of the specification's scenario: threshold 150, window 3 to 10 seconds,
  cooldown 30 seconds, and the samples (0, 50000), (1, 50050), (5, 50250) added with
  explicit timestamps while the clock reads 1000.
\<close>

definition scenario_detector :: spike_detector where
  "scenario_detector =
     add_price 1000 50250 (Some 5)
       (add_price 1000 50050 (Some 1)
          (add_price 1000 50000 (Some 0) (SpikeDetector 150 3 10 30 100)))"

text \<open>The history of \<^verbatim>\<open>test_detect_spike_up\<close> in tests/test\_spike\_detector.py (cooldown 0).\<close>

definition test_up_detector :: spike_detector where
  "test_up_detector =
     add_price 1000 50200 (Some 5)
       (add_price 1000 50100 (Some 2)
          (add_price 1000 50050 (Some 1)
             (add_price 1000 50000 (Some 0) (SpikeDetector 150 3 10 0 100))))"

text \<open>A move of 250 between the samples at 0 and 5, and a newest sample long after both.\<close>

definition stale_pair_detector :: spike_detector where
  "stale_pair_detector =
     add_price 1000 50250 (Some 100)
       (add_price 1000 50250 (Some 5)
          (add_price 1000 50000 (Some 0) (SpikeDetector 150 3 10 30 100)))"

text \<open>Two samples, then two detections thirty seconds of clock apart with no sample between.\<close>

definition repeated_detect_calls :: "detector_call list" where
  "repeated_detect_calls =
     [AddPrice 1000 50000 (Some 0), AddPrice 1000 50250 (Some 5),
      DetectSpike 1000, DetectSpike 1030]"

subsection \<open>Connection pool\<close>

text \<open>
  The pool of bot\_v2.py (\<^verbatim>\<open>ConnectionPool()\<close>: threshold 5, timeout 60 seconds) after five
  failed executions at clock 0.
\<close>

definition opened_pool :: connection_pool where
  "opened_pool =
     run_pool (replicate 5 (RecordError 0 ''strategy_execution'')) (ConnectionPool 200 5 60)"

text \<open>A pool with threshold 3 that is Healthy again after an error and a success.\<close>

definition recent_success_calls :: "pool_call list" where
  "recent_success_calls =
     [RegisterConnection 0 ''websocket'', RecordError 1 ''websocket'',
      RecordSuccess 2 ''websocket'']"

definition recent_success_pool :: connection_pool where
  "recent_success_pool = run_pool recent_success_calls (ConnectionPool 200 3 60)"

definition three_errors :: "(real \<times> string) list" where
  "three_errors = [(3, ''websocket''), (4, ''binance''), (5, ''websocket'')]"

subsection \<open>Market scanner\<close>

text \<open>
  Three markets about BTC that end at epoch second 5000, with two named tokens each, and a
  scanner of capacity 2 that registered the first two when it started at clock 1000.  No end
  date is a string here, so the date parser is never asked.
\<close>


definition no_iso_dates :: "string \<Rightarrow> int option" where
  "no_iso_dates s = None"

definition btc_market :: "string \<Rightarrow> string \<Rightarrow> market" where
  "btc_market mid q =
     \<lparr>market_id = Some mid, question = q, description = '''', slug = '''',
      end_date_iso = EndNum 5000,
      tokens = [\<lparr>outcome = ''Yes'', token_id = Some (mid @ ''-yes'')\<rparr>,
                \<lparr>outcome = ''No'', token_id = Some (mid @ ''-no'')\<rparr>],
      clobTokenIds = []\<rparr>"

definition market_A :: market where "market_A = btc_market ''A'' ''BTC up in 5min?''"
definition market_B :: market where "market_B = btc_market ''B'' ''Will btc fall?''"
definition market_C :: market where "market_C = btc_market ''C'' ''Is Btc above 50k?''"

definition full_scanner :: scanner where
  "full_scanner =
     scanner_start no_iso_dates 1000 (Response 200 [market_A, market_B])
       (MultiMarketScanner [''BTC''] [''test''] 2 10 120)"

text \<open>
  The calls the scanner's own loop makes once it runs: a round of the loop, a clean-up, a
  stop.  \<^verbatim>\<open>start\<close> and a direct \<^verbatim>\<open>scan_markets\<close> scan without looking at the size.
\<close>

fun guarded_call :: "scanner_call \<Rightarrow> bool" where
  "guarded_call (LoopRound now now' r) = True"
| "guarded_call (CleanupClosedMarkets now) = True"
| "guarded_call Stop = True"
| "guarded_call (Start now r) = False"
| "guarded_call (ScanMarkets now r) = False"

text \<open>The two registry dictionaries have the same keys.\<close>

definition keys_agree :: "scanner \<Rightarrow> bool" where
  "keys_agree sc \<longleftrightarrow> fst ` set (active_markets sc) = fst ` set (market_tokens sc)"

subsection \<open>WebSocket manager\<close>

text \<open>
  Kinds of steps: a stop ends the manager's life; a pass of the socket loop; a step in which
  no reconnection succeeds (any step except a stop and a pass whose connection succeeds).
\<close>

fun is_stop :: "ws_call \<Rightarrow> bool" where
  "is_stop WsStop = True"
| "is_stop c = False"

fun is_loop_pass :: "ws_call \<Rightarrow> bool" where
  "is_loop_pass (LoopPass now ok msg) = True"
| "is_loop_pass c = False"

fun no_reconnection :: "ws_call \<Rightarrow> bool" where
  "no_reconnection (LoopPass now ok msg) = (\<not> ok)"
| "no_reconnection WsStop = False"
| "no_reconnection c = True"

text \<open>\<^verbatim>\<open>not self.ws or self.ws.closed\<close>\<close>

definition socket_down :: "websocket_manager \<Rightarrow> bool" where
  "socket_down m \<longleftrightarrow> ws m = None \<or> ws m = Some ClosedSocket"

text \<open>
  A manager with at most 2 reconnection attempts whose socket, once connected, was closed by
  the peer; two failed reconnections with a subscription in between; and what a client and
  the tasks do afterwards.
\<close>

definition failing_calls :: "ws_call list" where
  "failing_calls =
     [LoopPass 1 False OtherFrame, Subscribe True ''tok2'', LoopPass 2 False OtherFrame]"

definition later_calls :: "ws_call list" where
  "later_calls =
     [Subscribe False ''tok3'', PollingPass 4 [12], Unsubscribe False ''tok1'', WsStart True,
      LoopPass 5 True OtherFrame]"

definition dropped_manager :: websocket_manager where
  "dropped_manager = run_ws [WsStart True, Subscribe True ''tok1'', PeerCloses] (WebSocketManager 5 2)"

text \<open>Polling mode with the socket loop gone and the manager still running.\<close>

definition polling_for_good :: "websocket_manager \<Rightarrow> bool" where
  "polling_for_good m \<longleftrightarrow> mode m = REST_POLLING \<and> running m \<and> \<not> websocket_loop_alive m"

subsection \<open>Strategy orchestrator\<close>

text \<open>\<^verbatim>\<open>self.capital_allocated.get(strategy_key, 0)\<close> for the key of a strategy.\<close>

definition allocated_for :: "orchestrator \<Rightarrow> strategy \<Rightarrow> real" where
  "allocated_for orch s =
     (case map_of (capital_allocated orch) (get_strategy_key s) of None \<Rightarrow> 0 | Some a \<Rightarrow> a)"

text \<open>The position of a key in a priority list.\<close>

definition rank :: "string list \<Rightarrow> string \<Rightarrow> nat" where
  "rank ks k = length (takeWhile (\<lambda>x. x \<noteq> k) ks)"

text \<open>What the scan phase adds to the opportunities for one strategy.\<close>

definition found :: "strategy \<Rightarrow> (strategy \<times> signal) list" where
  "found s =
     (if is_enabled s then
        (case scan_opportunities s of Inr (Some g) \<Rightarrow> [(s, g)] | _ \<Rightarrow> [])
      else [])"

text \<open>The content of a result, whether it came with an exception or not.\<close>

definition result_of :: "'a + 'a \<Rightarrow> 'a" where
  "result_of r = (case r of Inl a \<Rightarrow> a | Inr a \<Rightarrow> a)"

text \<open>
  A strategy that finds the given signal and whose trade succeeds, and an orchestrator over
  1000 of capital that discovers the maker strategy first and the latency strategy second.
\<close>

definition simple_strategy :: "string \<Rightarrow> signal \<Rightarrow> strategy" where
  "simple_strategy cn g =
     \<lparr>class_name = cn, name = None, enabled = None, scan_opportunities = Inr (Some g),
      execute_trade = (\<lambda>sg dry. Inr (Some (''position-'' @ sg))),
      monitor_positions = (\<lambda>dry. Inr [])\<rparr>"

definition example_orchestrator :: orchestrator where
  "example_orchestrator =
     StrategyOrchestrator CAPITAL_ALLOCATION
       [simple_strategy ''MakerStrategy'' ''quote'',
        simple_strategy ''LatencyArbitrageStrategy'' ''spike'']
       1000"

section \<open>Properties of the spike detector\<close>

lemmas detector_defs = SpikeDetector_def add_price_def deque_append_def detect_spike_def
  in_window_def py_int_def

lemma find_Some_set: "find P xs = Some x \<Longrightarrow> x \<in> set xs \<and> P x"
  by (induction xs) (auto split: if_splits)

lemma scenario_history:
  "scenario_detector =
     (SpikeDetector 150 3 10 30 100)\<lparr>price_history :=
        [\<lparr>price = 50000, timestamp = 0\<rparr>, \<lparr>price = 50050, timestamp = 1\<rparr>,
         \<lparr>price = 50250, timestamp = 5\<rparr>]\<rparr>"
  by (simp add: scenario_detector_def SpikeDetector_def add_price_def deque_append_def)

lemma detect_spike_None_same: "detect_spike now d = Inr (None, d') \<Longrightarrow> d' = d"
  by (auto simp: detect_spike_def Let_def split: if_splits option.splits)

lemma detect_spike_Some:
  "detect_spike now d = Inr (Some ev, d') \<Longrightarrow>
     cooldown_seconds d \<le> now - last_spike_time d \<and>
     d' = d\<lparr>last_spike_time := now, spike_count := spike_count d + 1\<rparr>"
  by (auto simp: detect_spike_def Let_def split: if_splits option.splits)

text \<open>
  C1, as stated, fails: in \<open>stale_pair_detector\<close> the samples at 0 and 5 are 5 seconds
  apart, inside the window, and differ by 250, above the threshold, and the call is outside
  the cooldown; yet \<^verbatim>\<open>detect_spike\<close> returns \<^verbatim>\<open>None\<close>, because it only compares the newest
  sample (at 100) with earlier ones and none of them is 3 to 10 seconds older.
\<close>

theorem detect_spike_ignores_stale_pair:
  "detect_spike 1000 stale_pair_detector = Inr (None, stale_pair_detector)
   \<and> \<not> 1000 - last_spike_time stale_pair_detector < cooldown_seconds stale_pair_detector
   \<and> price_history stale_pair_detector ! 0 \<in> set (price_history stale_pair_detector)
   \<and> price_history stale_pair_detector ! 1 \<in> set (price_history stale_pair_detector)
   \<and> time_window_min stale_pair_detector
        \<le> timestamp (price_history stale_pair_detector ! 1)
           - timestamp (price_history stale_pair_detector ! 0)
   \<and> timestamp (price_history stale_pair_detector ! 1)
        - timestamp (price_history stale_pair_detector ! 0)
        \<le> time_window_max stale_pair_detector
   \<and> min_move stale_pair_detector
        \<le> \<bar>price (price_history stale_pair_detector ! 1)
            - price (price_history stale_pair_detector ! 0)\<bar>"
  by (simp add: stale_pair_detector_def detector_defs)

text \<open>
  C1, amended.  Outside the cooldown, \<^verbatim>\<open>detect_spike\<close> pairs the newest sample with
  earlier samples only.  It returns an event only if some earlier sample whose age
  relative to the newest lies in the window differs from the newest by at least
  \<open>min_move\<close>; it does return one when there is such an in-window earlier sample and
  every in-window earlier sample differs by at least \<open>min_move\<close> and has a non-zero
  price; and it returns \<^verbatim>\<open>None\<close>, leaving the detector unchanged, when no earlier sample is
  in the window.
\<close>

theorem detect_spike_newest_pair:
  assumes "\<not> now - last_spike_time d < cooldown_seconds d"
  shows "((\<exists>ev d'. detect_spike now d = Inr (Some ev, d')) \<longrightarrow>
            (\<exists>entry \<in> set (butlast (price_history d)).
               in_window d (last (price_history d)) entry \<and>
               min_move d \<le> \<bar>price (last (price_history d)) - price entry\<bar>))
       \<and> ((\<exists>entry \<in> set (butlast (price_history d)). in_window d (last (price_history d)) entry) \<and>
          (\<forall>entry \<in> set (butlast (price_history d)).
              in_window d (last (price_history d)) entry \<longrightarrow>
              min_move d \<le> \<bar>price (last (price_history d)) - price entry\<bar> \<and> price entry \<noteq> 0)
          \<longrightarrow> (\<exists>ev d'. detect_spike now d = Inr (Some ev, d')))
       \<and> ((\<forall>entry \<in> set (butlast (price_history d)). \<not> in_window d (last (price_history d)) entry)
          \<longrightarrow> detect_spike now d = Inr (None, d))"
proof (intro conjI impI)
  assume "\<exists>ev d'. detect_spike now d = Inr (Some ev, d')"
  then obtain ev d' where e: "detect_spike now d = Inr (Some ev, d')" by blast
  then obtain past
    where f: "find (in_window d (last (price_history d))) (rev (butlast (price_history d))) = Some past"
      and m: "min_move d \<le> \<bar>price (last (price_history d)) - price past\<bar>"
    by (auto simp: detect_spike_def Let_def split: if_splits option.splits)
  from f have "past \<in> set (butlast (price_history d))" "in_window d (last (price_history d)) past"
    using find_Some_set by fastforce+
  with m show "\<exists>entry \<in> set (butlast (price_history d)).
               in_window d (last (price_history d)) entry \<and>
               min_move d \<le> \<bar>price (last (price_history d)) - price entry\<bar>" by blast
next
  assume a: "(\<exists>entry \<in> set (butlast (price_history d)). in_window d (last (price_history d)) entry) \<and>
          (\<forall>entry \<in> set (butlast (price_history d)).
              in_window d (last (price_history d)) entry \<longrightarrow>
              min_move d \<le> \<bar>price (last (price_history d)) - price entry\<bar> \<and> price entry \<noteq> 0)"
  then have ne: "butlast (price_history d) \<noteq> []" by auto
  then have len: "\<not> length (price_history d) < 2"
    by (cases "price_history d" rule: rev_cases) (auto simp: Suc_lessI)
  from a obtain past
    where f: "find (in_window d (last (price_history d))) (rev (butlast (price_history d))) = Some past"
    by (cases "find (in_window d (last (price_history d))) (rev (butlast (price_history d)))")
       (auto simp: find_None_iff)
  then have "past \<in> set (butlast (price_history d))" "in_window d (last (price_history d)) past"
    using find_Some_set by fastforce+
  with a have "min_move d \<le> \<bar>price (last (price_history d)) - price past\<bar>" "price past \<noteq> 0"
    by blast+
  with f len assms show "\<exists>ev d'. detect_spike now d = Inr (Some ev, d')"
    by (simp add: detect_spike_def Let_def)
next
  assume "\<forall>entry \<in> set (butlast (price_history d)). \<not> in_window d (last (price_history d)) entry"
  then have "find (in_window d (last (price_history d))) (rev (butlast (price_history d))) = None"
    by (simp add: find_None_iff)
  then show "detect_spike now d = Inr (None, d)"
    by (simp add: detect_spike_def Let_def)
qed

text \<open>
  The amended C1 at the scenario detector, clock 1000: the call is outside the cooldown,
  both earlier samples in the window (at 0 and at 1) are at least 150 below the newest,
  and an event is returned.
\<close>

theorem detect_spike_newest_pair_witness:
  "\<not> 1000 - last_spike_time scenario_detector < cooldown_seconds scenario_detector
   \<and> (\<exists>ev d'. detect_spike 1000 scenario_detector = Inr (Some ev, d'))"
  using detect_spike_newest_pair[of 1000 scenario_detector]
  by (simp add: scenario_history SpikeDetector_def in_window_def)

text \<open>
  C4.  On the scenario the code does return an "up" event, but the backward scan stops at
  the sample at t=1 (4 seconds old, inside the window), so the change is 200 against the
  price 50050, not 250 against the t=0 sample as the claim says.  The second half of the
  claim holds: after a further sample at t=6, whatever its price, a detection one clock
  second later is inside the cooldown and emits nothing.
\<close>

theorem detect_spike_scenario_anchor:
  "detect_spike 1000 scenario_detector =
     Inr (Some \<lparr>direction = ''up'', price_change = 200, price_change_pct = 200 / 50050 * 100,
                old_price = 50050, new_price = 50250, time_window = 4, detection_time = 5,
                spike_id = 5\<rparr>,
          scenario_detector\<lparr>last_spike_time := 1000, spike_count := 1\<rparr>)
   \<and> (\<forall>p. detect_spike 1001
             (add_price 1001 p (Some 6)
                (scenario_detector\<lparr>last_spike_time := 1000, spike_count := 1\<rparr>)) =
           Inr (None,
                add_price 1001 p (Some 6)
                  (scenario_detector\<lparr>last_spike_time := 1000, spike_count := 1\<rparr>)))"
  by (simp add: scenario_history detector_defs)

text \<open>
  The repository's own test \<^verbatim>\<open>test_detect_spike_up\<close> expects an event whose
  \<^verbatim>\<open>old_price\<close> is the t=0 sample.  On its history the scan stops at the sample at t=2
  (exactly 3 seconds old), the change against it is 100, and no event is returned.
\<close>

lemma test_detect_spike_up_returns_None:
  "detect_spike 1000 test_up_detector = Inr (None, test_up_detector)"
  by (simp add: test_up_detector_def detector_defs)

text \<open>Every event of a run is emitted at least a cooldown after the detector's last spike time.\<close>

lemma run_detector_after:
  "0 \<le> cooldown_seconds d \<Longrightarrow> x \<in> set (run_detector cs d) \<Longrightarrow>
     last_spike_time d + cooldown_seconds d \<le> fst x"
proof (induction cs d arbitrary: x rule: run_detector.induct)
  case (1 d)
  then show ?case by simp
next
  case (2 now p ts cs d)
  then show ?case by (simp add: add_price_def)
next
  case (3 now cs d)
  show ?case
  proof (cases "detect_spike now d")
    case (Inl e)
    with 3 show ?thesis by simp
  next
    case (Inr r)
    obtain o' d' where r: "r = (o', d')" by (cases r)
    show ?thesis
    proof (cases o')
      case None
      with Inr r have "d' = d" using detect_spike_None_same by blast
      with 3 Inr r None show ?thesis by simp
    next
      case (Some ev)
      from detect_spike_Some Inr r Some
      have *: "cooldown_seconds d \<le> now - last_spike_time d"
        and d': "d' = d\<lparr>last_spike_time := now, spike_count := spike_count d + 1\<rparr>" by blast+
      from "3.prems" Inr r Some have "x = (now, ev) \<or> x \<in> set (run_detector cs d')" by simp
      then show ?thesis
      proof
        assume "x = (now, ev)" with * show ?thesis by simp
      next
        assume xin: "x \<in> set (run_detector cs d')"
        have "last_spike_time d' + cooldown_seconds d' \<le> fst x"
          using "3.IH"(3)[OF Inr r[symmetric] Some _ xin] "3.prems"(1) d' by simp
        with d' * "3.prems"(1) show ?thesis by simp
      qed
    qed
  qed
qed

lemma run_detector_gap:
  "0 \<le> cooldown_seconds d \<Longrightarrow> i < j \<Longrightarrow> j < length (run_detector cs d) \<Longrightarrow>
     cooldown_seconds d \<le> fst (run_detector cs d ! j) - fst (run_detector cs d ! i)"
proof (induction cs d arbitrary: i j rule: run_detector.induct)
  case (1 d)
  then show ?case by simp
next
  case (2 now p ts cs d)
  then show ?case by (simp add: add_price_def)
next
  case (3 now cs d)
  show ?case
  proof (cases "detect_spike now d")
    case (Inl e)
    with 3 show ?thesis by simp
  next
    case (Inr r)
    obtain o' d' where r: "r = (o', d')" by (cases r)
    show ?thesis
    proof (cases o')
      case None
      with Inr r have "d' = d" using detect_spike_None_same by blast
      with 3 Inr r None show ?thesis by simp
    next
      case (Some ev)
      from detect_spike_Some Inr r Some
      have d': "d' = d\<lparr>last_spike_time := now, spike_count := spike_count d + 1\<rparr>" by blast
      have run: "run_detector (DetectSpike now # cs) d = (now, ev) # run_detector cs d'"
        using Inr r Some by simp
      have cd: "cooldown_seconds d' = cooldown_seconds d" and lst: "last_spike_time d' = now"
        using d' by simp_all
      from "3.prems" run obtain j' where j': "j = Suc j'" "j' < length (run_detector cs d')"
        by (cases j) auto
      show ?thesis
      proof (cases i)
        case 0
        have "run_detector cs d' ! j' \<in> set (run_detector cs d')" using j' by simp
        then have "last_spike_time d' + cooldown_seconds d' \<le> fst (run_detector cs d' ! j')"
          using run_detector_after[of d' _ cs] "3.prems"(1) cd by simp
        with 0 j' run cd lst show ?thesis by simp
      next
        case (Suc i')
        with "3.prems" j' have "i' < j'" by simp
        then have "cooldown_seconds d' \<le> fst (run_detector cs d' ! j') - fst (run_detector cs d' ! i')"
          using "3.IH"(3)[OF Inr r[symmetric] Some _ _ j'(2)] "3.prems"(1) cd by simp
        with Suc j' run cd show ?thesis by simp
      qed
    qed
  qed
qed

text \<open>
  C5, as stated, fails: \<open>detection_time\<close> is the timestamp of the newest sample, while the
  cooldown is measured on the clock of the \<^verbatim>\<open>detect_spike\<close> calls.  Two calls thirty clock
  seconds apart with no sample in between both emit, and both events carry the detection
  time 5: they are 0 apart, less than the cooldown of 30.
\<close>

theorem detection_times_repeat:
  "map (detection_time \<circ> snd)
     (run_detector repeated_detect_calls (SpikeDetector 150 3 10 30 100)) = [5, 5]"
  by (simp add: repeated_detect_calls_def detector_defs)

text \<open>
  C5, amended.  For every sequence of \<^verbatim>\<open>add_price\<close> and \<^verbatim>\<open>detect_spike\<close> calls on any
  detector, the clock readings of any two calls that emitted an event (the values stored
  in \<open>last_spike_time\<close>) are at least the cooldown apart.
\<close>

theorem emissions_spaced_by_clock:
  "i < j \<Longrightarrow> j < length (run_detector cs d) \<Longrightarrow>
     cooldown_seconds d \<le> \<bar>fst (run_detector cs d ! j) - fst (run_detector cs d ! i)\<bar>"
proof (cases "0 \<le> cooldown_seconds d")
  case True
  assume "i < j" "j < length (run_detector cs d)"
  with True run_detector_gap show ?thesis by fastforce
next
  case False
  then show ?thesis by simp
qed

text \<open>
  The amended C5 on the run above: events are emitted at the clock readings 1000 and 1030,
  which are 30 apart.
\<close>

theorem emissions_spaced_by_clock_witness:
  "(0::nat) < 1
   \<and> 1 < length (run_detector repeated_detect_calls (SpikeDetector 150 3 10 30 100))
   \<and> map fst (run_detector repeated_detect_calls (SpikeDetector 150 3 10 30 100)) = [1000, 1030]
   \<and> cooldown_seconds (SpikeDetector 150 3 10 30 100) \<le> \<bar>1030 - 1000\<bar>"
  using emissions_spaced_by_clock[of 0 1 repeated_detect_calls "SpikeDetector 150 3 10 30 100"]
  by (simp add: repeated_detect_calls_def detector_defs)

section \<open>Properties of the connection pool\<close>

lemmas pool_defs = ConnectionPool_def register_connection_def unregister_connection_def
  open_circuit_def update_state_def record_success_def record_error_def record_latency_def
  run_pool_def

lemma pool_step_threshold [simp]: "error_threshold (pool_step c p) = error_threshold p"
  by (cases c) (auto simp: pool_defs Let_def split: option.splits)

lemma run_pool_threshold [simp]: "error_threshold (run_pool cs p) = error_threshold p"
  unfolding run_pool_def by (induction cs arbitrary: p) auto

text \<open>
  In every state a pool can reach, the global error counter is not negative and the
  Healthy state has the counter at zero.
\<close>

lemma pool_step_invariant:
  assumes "0 \<le> error_count p \<and> (state p = HEALTHY \<longrightarrow> error_count p = 0)"
  shows "0 \<le> error_count (pool_step c p) \<and>
         (state (pool_step c p) = HEALTHY \<longrightarrow> error_count (pool_step c p) = 0)"
  using assms by (cases c) (auto simp: pool_defs Let_def split: option.splits)

lemma run_pool_invariant:
  assumes "0 \<le> error_count p \<and> (state p = HEALTHY \<longrightarrow> error_count p = 0)"
  shows "0 \<le> error_count (run_pool cs p) \<and>
         (state (run_pool cs p) = HEALTHY \<longrightarrow> error_count (run_pool cs p) = 0)"
  using assms unfolding run_pool_def
proof (induction cs arbitrary: p)
  case Nil
  then show ?case by simp
next
  case (Cons c cs)
  from pool_step_invariant[OF Cons.prems] Cons.IH show ?case by simp
qed

lemma healthy_has_no_errors:
  "state (run_pool cs (ConnectionPool lat thr tmo)) = HEALTHY \<Longrightarrow>
     error_count (run_pool cs (ConnectionPool lat thr tmo)) = 0"
  using run_pool_invariant[of "ConnectionPool lat thr tmo" cs] by (simp add: ConnectionPool_def)

lemma record_error_below:
  assumes "state p \<noteq> CIRCUIT_OPEN" "error_count p + 1 < error_threshold p" "0 \<le> error_count p"
  shows "state (record_error now nm p) \<noteq> CIRCUIT_OPEN \<and>
         error_count (record_error now nm p) = error_count p + 1 \<and>
         error_threshold (record_error now nm p) = error_threshold p"
  using assms by (auto simp: pool_defs Let_def split: option.splits)

lemma record_error_reaches:
  assumes "state p \<noteq> CIRCUIT_OPEN" "error_count p + 1 = error_threshold p"
  shows "state (record_error now nm p) = CIRCUIT_OPEN"
  using assms by (auto simp: pool_defs Let_def split: option.splits)

lemma record_errors_below:
  assumes "state p \<noteq> CIRCUIT_OPEN"
      and "error_count p + int (length errs) < error_threshold p"
      and "0 \<le> error_count p"
  shows "state (run_pool (map (\<lambda>(now, nm). RecordError now nm) errs) p) \<noteq> CIRCUIT_OPEN \<and>
         error_count (run_pool (map (\<lambda>(now, nm). RecordError now nm) errs) p)
           = error_count p + int (length errs)"
  using assms
proof (induction errs arbitrary: p)
  case Nil
  then show ?case by (simp add: run_pool_def)
next
  case (Cons e errs)
  obtain now nm where e: "e = (now, nm)" by (cases e)
  let ?p = "record_error now nm p"
  from Cons.prems have "error_count p + 1 < error_threshold p" by simp
  from record_error_below[OF Cons.prems(1) this Cons.prems(3)]
  have s: "state ?p \<noteq> CIRCUIT_OPEN" and c: "error_count ?p = error_count p + 1"
    and t: "error_threshold ?p = error_threshold p" by auto
  have "state (run_pool (map (\<lambda>(now, nm). RecordError now nm) errs) ?p) \<noteq> CIRCUIT_OPEN \<and>
        error_count (run_pool (map (\<lambda>(now, nm). RecordError now nm) errs) ?p)
          = error_count ?p + int (length errs)"
    using Cons.IH[OF s] c t Cons.prems by simp
  with c e show ?case by (simp add: run_pool_def)
qed

text \<open>
  C6.  Let \<open>p\<close> be a pool in the Healthy state, reached from a new pool with a positive
  error threshold by any calls.  After \<open>error_threshold\<close> calls of \<^verbatim>\<open>record_error\<close> in a
  row, at any clock readings and for any connection names, the state is
  \<open>CIRCUIT_OPEN\<close> and \<^verbatim>\<open>can_execute\<close> is false.
\<close>

theorem consecutive_errors_open_circuit:
  assumes "p = run_pool history (ConnectionPool lat thr tmo)"
      and "state p = HEALTHY"
      and "0 < thr"
      and "length errs = nat thr"
  shows "state (run_pool (map (\<lambda>(now, nm). RecordError now nm) errs) p) = CIRCUIT_OPEN
       \<and> \<not> can_execute (run_pool (map (\<lambda>(now, nm). RecordError now nm) errs) p)"
proof -
  have thr: "error_threshold p = thr" using assms(1) by (simp add: ConnectionPool_def)
  have c0: "error_count p = 0" using healthy_has_no_errors assms(1,2) by blast
  from assms(3,4) obtain es e where errs: "errs = es @ [e]" and len: "int (length es) = thr - 1"
    by (cases errs rule: rev_cases) auto
  obtain now nm where e: "e = (now, nm)" by (cases e)
  let ?q = "run_pool (map (\<lambda>(now, nm). RecordError now nm) es) p"
  have "state ?q \<noteq> CIRCUIT_OPEN \<and> error_count ?q = error_count p + int (length es)"
    using record_errors_below[of p es] assms(2) c0 thr len by simp
  then have "state (record_error now nm ?q) = CIRCUIT_OPEN"
    using record_error_reaches[of ?q now nm] c0 len thr by simp
  then have "state (run_pool (map (\<lambda>(now, nm). RecordError now nm) errs) p) = CIRCUIT_OPEN"
    using errs e by (simp add: run_pool_def)
  then show ?thesis by (simp add: can_execute_def)
qed

text \<open>
  C6 on a pool with threshold 3 that went Degraded and back to Healthy: three errors on
  two different connections open the circuit.
\<close>

theorem consecutive_errors_open_circuit_witness:
  "recent_success_pool = run_pool recent_success_calls (ConnectionPool 200 3 60)
   \<and> state recent_success_pool = HEALTHY \<and> (0::int) < 3 \<and> length three_errors = nat 3
   \<and> state (run_pool (map (\<lambda>(now, nm). RecordError now nm) three_errors) recent_success_pool)
       = CIRCUIT_OPEN
   \<and> \<not> can_execute
         (run_pool (map (\<lambda>(now, nm). RecordError now nm) three_errors) recent_success_pool)"
  using consecutive_errors_open_circuit
          [of recent_success_pool recent_success_calls 200 3 60 three_errors]
  by (simp add: recent_success_pool_def recent_success_calls_def three_errors_def pool_defs)

text \<open>
  C7.  \<^verbatim>\<open>can_execute\<close> only reads the stored state; the timer is looked at in
  \<^verbatim>\<open>_update_state\<close>, which runs inside \<^verbatim>\<open>record_success\<close> and \<^verbatim>\<open>record_error\<close> alone.
  The pool whose circuit opened at clock 0 is still \<open>CIRCUIT_OPEN\<close> when \<^verbatim>\<open>can_execute\<close>
  is asked at clock 1000, long after the 60 seconds of the timeout: it answers false.
\<close>

theorem can_execute_ignores_timeout:
  "state opened_pool = CIRCUIT_OPEN
   \<and> circuit_opened_at opened_pool = 0
   \<and> circuit_timeout opened_pool < 1000 - circuit_opened_at opened_pool
   \<and> \<not> can_execute opened_pool"
  by (simp add: opened_pool_def can_execute_def pool_defs numeral_eq_Suc)

text \<open>The recovery the timer is meant for happens at the next recorded outcome.\<close>

lemma record_after_timeout_recovers:
  assumes "state p = CIRCUIT_OPEN" "circuit_timeout p < now - circuit_opened_at p"
  shows "state (record_success now nm p) = DEGRADED
       \<and> error_count (record_success now nm p) = 0
       \<and> can_execute (record_success now nm p)"
  using assms by (auto simp: pool_defs can_execute_def Let_def split: option.splits)

section \<open>Properties of the market scanner\<close>

lemma full_scanner_eval:
  "map fst (active_markets full_scanner) = [Some ''A'', Some ''B'']"
  by code_simp

text \<open>
  C3.  The registry is to hold at most \<open>max_markets\<close> entries, and a scan at capacity is
  to register nothing and return no new market.  \<^verbatim>\<open>scan_markets\<close> does not do so: it tests
  the capacity only after it has registered a market.  Called on the scanner that already
  holds its two markets A and B (\<open>max_markets\<close> is 2), with a catalog that offers the
  matching market C, it registers C and returns it: three entries against a maximum of two.
\<close>

theorem scan_markets_at_capacity_registers:
  "int (length (active_markets full_scanner)) = max_markets full_scanner
   \<and> snd (scan_markets no_iso_dates 1010 (Response 200 [market_C]) full_scanner) = [market_C]
   \<and> map fst (active_markets (fst (scan_markets no_iso_dates 1010 (Response 200 [market_C]) full_scanner))) = [Some ''A'', Some ''B'', Some ''C'']
   \<and> max_markets (fst (scan_markets no_iso_dates 1010 (Response 200 [market_C]) full_scanner)) = 2"
  by code_simp


lemma length_update_new:
  "k \<notin> fst ` set al \<Longrightarrow> length (AList.update k v al) = Suc (length al)"
  by (induction al) auto

lemma keys_delete: "fst ` set (AList.delete k al) = fst ` set al - {k}"
  by (auto simp: AList.delete_eq)

lemma scan_loop_keys:
  "keys_agree sc \<Longrightarrow> keys_agree (fst (scan_loop f now ms (sc, new)))"
proof (induction ms arbitrary: sc new)
  case Nil
  then show ?case by simp
next
  case (Cons m ms)
  let ?sc' = "sc\<lparr>active_markets := AList.update (market_id m) m (active_markets sc),
                  market_tokens := AList.update (market_id m)
                     (the (fst (extract_tokens m)), the (snd (extract_tokens m))) (market_tokens sc)\<rparr>"
  have k': "keys_agree ?sc'" using Cons.prems by (simp add: keys_agree_def dom_update)
  show ?case
    using Cons.IH[OF Cons.prems] Cons.IH[OF k'] k'
    by (auto simp: Let_def split: prod.splits)
qed

lemma scan_loop_max [simp]:
  "max_markets (fst (scan_loop f now ms (sc, new))) = max_markets sc"
proof (induction ms arbitrary: sc new)
  case Nil
  then show ?case by simp
next
  case (Cons m ms)
  show ?case
    by (auto simp: Let_def Cons.IH split: prod.splits)
qed

lemma scan_loop_running [simp]:
  "scanner.running (fst (scan_loop f now ms (sc, new))) = scanner.running sc"
proof (induction ms arbitrary: sc new)
  case Nil
  then show ?case by simp
next
  case (Cons m ms)
  show ?case
    by (auto simp: Let_def Cons.IH split: prod.splits)
qed

lemma scan_loop_capacity:
  "int (length (active_markets sc)) < max_markets sc \<Longrightarrow>
     int (length (active_markets (fst (scan_loop f now ms (sc, new))))) \<le> max_markets sc"
proof (induction ms arbitrary: sc new)
  case Nil
  then show ?case by simp
next
  case (Cons m ms)
  let ?sc' = "sc\<lparr>active_markets := AList.update (market_id m) m (active_markets sc),
                  market_tokens := AList.update (market_id m)
                     (the (fst (extract_tokens m)), the (snd (extract_tokens m))) (market_tokens sc)\<rparr>"
  show ?case
  proof (cases "market_id m \<in> fst ` set (active_markets sc) \<or> \<not> matches_criteria sc m
                \<or> \<not> has_sufficient_time f now sc m
                \<or> \<not> truthy (fst (extract_tokens m)) \<or> \<not> truthy (snd (extract_tokens m))")
    case True
    then have "scan_loop f now (m # ms) (sc, new) = scan_loop f now ms (sc, new)"
      by (auto split: prod.splits)
    with Cons show ?thesis by simp
  next
    case False
    then have len: "length (active_markets ?sc') = Suc (length (active_markets sc))"
      by (simp add: length_update_new)
    show ?thesis
    proof (cases "max_markets sc \<le> int (length (active_markets ?sc'))")
      case True
      with False have "scan_loop f now (m # ms) (sc, new) = (?sc', new @ [m])"
        by (auto simp: Let_def split: prod.splits)
      with len Cons.prems show ?thesis by simp
    next
      case stop: False
      with False have "scan_loop f now (m # ms) (sc, new) = scan_loop f now ms (?sc', new @ [m])"
        by (auto simp: Let_def split: prod.splits)
      moreover have "int (length (active_markets (fst (scan_loop f now ms (?sc', new @ [m])))))
                       \<le> max_markets ?sc'"
        using Cons.IH[of ?sc' "new @ [m]"] stop by simp
      ultimately show ?thesis by simp
    qed
  qed
qed

lemma scan_markets_capacity:
  "int (length (active_markets sc)) < max_markets sc \<Longrightarrow>
     int (length (active_markets (fst (scan_markets f now r sc)))) \<le> max_markets sc
     \<and> max_markets (fst (scan_markets f now r sc)) = max_markets sc"
proof (cases r)
  case RequestFailed
  assume "int (length (active_markets sc)) < max_markets sc"
  with RequestFailed show ?thesis by (simp add: scan_markets_def)
next
  case (Response status ms)
  assume a: "int (length (active_markets sc)) < max_markets sc"
  obtain sc' new where l: "scan_loop f (py_int now) ms (sc, []) = (sc', new)"
    by (cases "scan_loop f (py_int now) ms (sc, [])")
  from scan_loop_capacity[OF a, of f "py_int now" ms "[]"] scan_loop_max[of f "py_int now" ms sc "[]"] l
  have "int (length (active_markets sc')) \<le> max_markets sc" "max_markets sc' = max_markets sc"
    by simp_all
  with a Response l show ?thesis by (simp add: scan_markets_def)
qed

lemma scan_markets_keys: "keys_agree sc \<Longrightarrow> keys_agree (fst (scan_markets f now r sc))"
proof (cases r)
  case RequestFailed
  assume "keys_agree sc"
  with RequestFailed show ?thesis by (simp add: scan_markets_def)
next
  case (Response status ms)
  assume a: "keys_agree sc"
  obtain sc' new where l: "scan_loop f (py_int now) ms (sc, []) = (sc', new)"
    by (cases "scan_loop f (py_int now) ms (sc, [])")
  from scan_loop_keys[OF a, of f "py_int now" ms "[]"] l have "keys_agree sc'" by simp
  then have "keys_agree (sc'\<lparr>last_scan_time := now\<rparr>)" by (simp add: keys_agree_def)
  with a Response l show ?thesis by (simp add: scan_markets_def)
qed

lemma cleanup_fold:
  "max_markets (fold (\<lambda>k s. s\<lparr>active_markets := AList.delete k (active_markets s),
                    market_tokens := AList.delete k (market_tokens s)\<rparr>) ks sc) = max_markets sc
   \<and> scanner.running (fold (\<lambda>k s. s\<lparr>active_markets := AList.delete k (active_markets s),
                    market_tokens := AList.delete k (market_tokens s)\<rparr>) ks sc) = scanner.running sc
   \<and> length (active_markets (fold (\<lambda>k s. s\<lparr>active_markets := AList.delete k (active_markets s),
                    market_tokens := AList.delete k (market_tokens s)\<rparr>) ks sc)) \<le> length (active_markets sc)
   \<and> (keys_agree sc \<longrightarrow> keys_agree (fold (\<lambda>k s. s\<lparr>active_markets := AList.delete k (active_markets s),
                    market_tokens := AList.delete k (market_tokens s)\<rparr>) ks sc))"
proof (induction ks arbitrary: sc)
  case Nil
  then show ?case by simp
next
  case (Cons k ks)
  let ?s = "sc\<lparr>active_markets := AList.delete k (active_markets sc),
                    market_tokens := AList.delete k (market_tokens sc)\<rparr>"
  have "length (active_markets ?s) \<le> length (active_markets sc)" by (simp add: length_delete_le)
  moreover have "keys_agree sc \<longrightarrow> keys_agree ?s" by (simp add: keys_agree_def keys_delete)
  ultimately show ?case using Cons.IH[of ?s] by auto
qed

lemma cleanup_capacity:
  "length (active_markets (cleanup_closed_markets f now sc)) \<le> length (active_markets sc)
   \<and> max_markets (cleanup_closed_markets f now sc) = max_markets sc"
  unfolding cleanup_closed_markets_def using cleanup_fold by blast

lemma cleanup_keys: "keys_agree sc \<Longrightarrow> keys_agree (cleanup_closed_markets f now sc)"
  unfolding cleanup_closed_markets_def using cleanup_fold by blast

text \<open>
  Rounds of the loop, clean-ups and stops keep a registry of at most \<open>max_markets\<close>
  entries within that bound, because the round scans only below it.
\<close>

lemma guarded_step_capacity:
  assumes "guarded_call c" "int (length (active_markets sc)) \<le> max_markets sc"
  shows "int (length (active_markets (scanner_step f c sc))) \<le> max_markets sc
       \<and> max_markets (scanner_step f c sc) = max_markets sc"
proof (cases c)
  case (LoopRound now now' r)
  let ?s1 = "cleanup_closed_markets f now sc"
  have 1: "int (length (active_markets ?s1)) \<le> max_markets sc" "max_markets ?s1 = max_markets sc"
    using cleanup_capacity[of f now sc] assms(2) by auto
  show ?thesis
    using 1 scan_markets_capacity[of ?s1 f now' r] assms(2) LoopRound
    by (auto simp: scanning_loop_round_def Let_def)
next
  case (CleanupClosedMarkets now)
  then show ?thesis using cleanup_capacity[of f now sc] assms(2) by auto
qed (use assms in \<open>auto simp: scanner_stop_def\<close>)

lemma guarded_run_capacity:
  assumes "\<forall>c \<in> set calls. guarded_call c" "int (length (active_markets sc)) \<le> max_markets sc"
  shows "int (length (active_markets (run_scanner f calls sc))) \<le> max_markets sc"
  using assms unfolding run_scanner_def
proof (induction calls arbitrary: sc)
  case Nil
  then show ?case by simp
next
  case (Cons c calls)
  from guarded_step_capacity[of c sc f] Cons.prems
  have "int (length (active_markets (scanner_step f c sc))) \<le> max_markets (scanner_step f c sc)"
       "max_markets (scanner_step f c sc) = max_markets sc" by auto
  with Cons.IH[of "scanner_step f c sc"] Cons.prems show ?case by simp
qed

lemma step_keys: "keys_agree sc \<Longrightarrow> keys_agree (scanner_step f c sc)"
proof (cases c)
  case (Start now r)
  assume "keys_agree sc"
  then have "keys_agree (sc\<lparr>scanner.running := True\<rparr>)" by (simp add: keys_agree_def)
  from scan_markets_keys[OF this] \<open>keys_agree sc\<close> Start show ?thesis by (simp add: scanner_start_def)
next
  case Stop
  assume "keys_agree sc" with Stop show ?thesis by (simp add: scanner_stop_def keys_agree_def)
next
  case (LoopRound now now' r)
  assume "keys_agree sc"
  with LoopRound show ?thesis
    using cleanup_keys[of sc f now] scan_markets_keys[of "cleanup_closed_markets f now sc" f now' r]
    by (auto simp: scanning_loop_round_def Let_def)
next
  case (ScanMarkets now r)
  assume "keys_agree sc" with ScanMarkets scan_markets_keys show ?thesis by simp
next
  case (CleanupClosedMarkets now)
  assume "keys_agree sc" with CleanupClosedMarkets cleanup_keys show ?thesis by simp
qed

lemma run_keys: "keys_agree sc \<Longrightarrow> keys_agree (run_scanner f calls sc)"
  unfolding run_scanner_def
  by (induction calls arbitrary: sc) (auto intro: step_keys)

text \<open>
  C10.  After any sequence of starts, stops, loop rounds, direct scans and clean-ups on a
  new scanner, \<open>active_markets\<close> and \<open>market_tokens\<close> have the same set of keys, and
  for every market id \<^verbatim>\<open>get_market_tokens\<close> returns a token pair exactly when
  \<^verbatim>\<open>get_market_by_id\<close> returns a market.
\<close>

theorem registry_maps_same_keys:
  "fst ` set (active_markets (run_scanner f calls (MultiMarketScanner kws excl maxm iv mt)))
     = fst ` set (market_tokens (run_scanner f calls (MultiMarketScanner kws excl maxm iv mt)))
   \<and> (get_market_tokens (run_scanner f calls (MultiMarketScanner kws excl maxm iv mt)) mid \<noteq> None
        \<longleftrightarrow> get_market_by_id (run_scanner f calls (MultiMarketScanner kws excl maxm iv mt)) mid \<noteq> None)"
proof -
  have "keys_agree (MultiMarketScanner kws excl maxm iv mt)"
    by (simp add: keys_agree_def MultiMarketScanner_def)
  from run_keys[OF this, of f calls] show ?thesis
    by (simp add: keys_agree_def get_market_tokens_def get_market_by_id_def map_of_eq_None_iff)
qed


lemma full_scanner_running: "scanner.running full_scanner"
  by code_simp

text \<open>
  The scanning loop guards its own scan: a round at clock 1010 on the full scanner, with
  market C in the catalog, only cleans up (nothing has ended) and registers nothing.  The
  other callers do not: \<^verbatim>\<open>start\<close> after a \<^verbatim>\<open>stop\<close> scans the full registry and registers C.
\<close>

lemma loop_round_at_capacity_skips_scan:
  "map fst (active_markets
      (scanning_loop_round no_iso_dates 1010 1011 (Response 200 [market_C]) full_scanner))
     = [Some ''A'', Some ''B'']"
  by code_simp

lemma restart_at_capacity_registers:
  "map fst (active_markets
      (run_scanner no_iso_dates [Stop, Start 1010 (Response 200 [market_C])] full_scanner))
     = [Some ''A'', Some ''B'', Some ''C'']"
  by code_simp

text \<open>C10 on a start that registers A and B followed by a clean-up after both have ended.\<close>

theorem registry_maps_same_keys_witness:
  "fst ` set (active_markets (run_scanner no_iso_dates
       [Start 1000 (Response 200 [market_A, market_B]), CleanupClosedMarkets 6000]
       (MultiMarketScanner [''BTC''] [''test''] 2 10 120)))
   = fst ` set (market_tokens (run_scanner no_iso_dates
       [Start 1000 (Response 200 [market_A, market_B]), CleanupClosedMarkets 6000]
       (MultiMarketScanner [''BTC''] [''test''] 2 10 120)))"
  using registry_maps_same_keys[of no_iso_dates "[Start 1000 (Response 200 [market_A, market_B]), CleanupClosedMarkets 6000]"
            "[''BTC'']" "[''test'']" 2 10 120]
  by simp

text \<open>
  The keys of the registry stay distinct, so the length of the association list is the
  size of the dictionary; and \<^verbatim>\<open>start\<close> on a new scanner with room for at least one market
  stays within the capacity.
\<close>

lemma scan_loop_distinct:
  "distinct (map fst (active_markets sc)) \<Longrightarrow>
     distinct (map fst (active_markets (fst (scan_loop f now ms (sc, new)))))"
proof (induction ms arbitrary: sc new)
  case Nil
  then show ?case by simp
next
  case (Cons m ms)
  let ?sc' = "sc\<lparr>active_markets := AList.update (market_id m) m (active_markets sc),
                  market_tokens := AList.update (market_id m)
                     (the (fst (extract_tokens m)), the (snd (extract_tokens m))) (market_tokens sc)\<rparr>"
  have d': "distinct (map fst (active_markets ?sc'))"
    using Cons.prems by (simp add: distinct_update)
  show ?case
    using Cons.IH[OF Cons.prems] Cons.IH[OF d'] d'
    by (auto simp: Let_def split: prod.splits)
qed

lemma scan_markets_distinct:
  "distinct (map fst (active_markets sc)) \<Longrightarrow>
     distinct (map fst (active_markets (fst (scan_markets f now r sc))))"
proof (cases r)
  case RequestFailed
  assume "distinct (map fst (active_markets sc))"
  with RequestFailed show ?thesis by (simp add: scan_markets_def)
next
  case (Response status ms)
  assume a: "distinct (map fst (active_markets sc))"
  obtain sc' new where l: "scan_loop f (py_int now) ms (sc, []) = (sc', new)"
    by (cases "scan_loop f (py_int now) ms (sc, [])")
  from scan_loop_distinct[OF a, of f "py_int now" ms "[]"] l
  have "distinct (map fst (active_markets sc'))" by simp
  with a Response l show ?thesis by (simp add: scan_markets_def)
qed

lemma cleanup_distinct:
  "distinct (map fst (active_markets sc)) \<Longrightarrow>
     distinct (map fst (active_markets (cleanup_closed_markets f now sc)))"
proof -
  have "distinct (map fst (active_markets sc)) \<Longrightarrow>
        distinct (map fst (active_markets
          (fold (\<lambda>k s. s\<lparr>active_markets := AList.delete k (active_markets s),
                          market_tokens := AList.delete k (market_tokens s)\<rparr>) ks sc)))" for ks
    by (induction ks arbitrary: sc) (auto simp: distinct_delete)
  then show "distinct (map fst (active_markets sc)) \<Longrightarrow> ?thesis"
    by (simp add: cleanup_closed_markets_def)
qed

lemma step_distinct:
  "distinct (map fst (active_markets sc)) \<Longrightarrow>
     distinct (map fst (active_markets (scanner_step f c sc)))"
proof (cases c)
  case (Start now r)
  assume d: "distinct (map fst (active_markets sc))"
  then have "distinct (map fst (active_markets (sc\<lparr>scanner.running := True\<rparr>)))" by simp
  from scan_markets_distinct[OF this] d Start show ?thesis by (simp add: scanner_start_def)
next
  case Stop
  assume "distinct (map fst (active_markets sc))"
  with Stop show ?thesis by (simp add: scanner_stop_def)
next
  case (LoopRound now now' r)
  assume "distinct (map fst (active_markets sc))"
  with LoopRound show ?thesis
    using cleanup_distinct[of sc f now] scan_markets_distinct[of "cleanup_closed_markets f now sc" f now' r]
    by (auto simp: scanning_loop_round_def Let_def)
next
  case (ScanMarkets now r)
  assume "distinct (map fst (active_markets sc))"
  with ScanMarkets scan_markets_distinct show ?thesis by simp
next
  case (CleanupClosedMarkets now)
  assume "distinct (map fst (active_markets sc))"
  with CleanupClosedMarkets cleanup_distinct show ?thesis by simp
qed

lemma registry_keys_distinct:
  "distinct (map fst (active_markets (run_scanner f calls (MultiMarketScanner kws excl maxm iv mt))))"
proof -
  have "distinct (map fst (active_markets sc)) \<Longrightarrow>
        distinct (map fst (active_markets (run_scanner f calls sc)))" for sc
    unfolding run_scanner_def by (induction calls arbitrary: sc) (auto intro: step_distinct)
  then show ?thesis by (simp add: MultiMarketScanner_def)
qed

lemma start_keeps_capacity:
  assumes "1 \<le> maxm"
  shows "int (length (active_markets
           (scanner_start f now r (MultiMarketScanner kws excl maxm iv mt)))) \<le> maxm"
  using scan_markets_capacity[of "(MultiMarketScanner kws excl maxm iv mt)\<lparr>scanner.running := True\<rparr>" f now r] assms
  by (simp add: scanner_start_def MultiMarketScanner_def)

section \<open>Properties of the WebSocket manager\<close>

lemmas ws_defs = WebSocketManager_def try_websocket_connection_def ws_start_def ws_stop_def
  subscribe_market_def unsubscribe_market_def handle_message_def websocket_loop_pass_def
  rest_polling_pass_def run_ws_def

lemma handle_message_fields [simp]:
  "mode (handle_message t l m) = mode m"
  "running (handle_message t l m) = running m"
  "websocket_loop_alive (handle_message t l m) = websocket_loop_alive m"
  "connect_calls (handle_message t l m) = connect_calls m"
  "polling_loops (handle_message t l m) = polling_loops m"
  "subscribed_markets (handle_message t l m) = subscribed_markets m"
  "ws (handle_message t l m) = ws m"
  "max_reconnect_attempts (handle_message t l m) = max_reconnect_attempts m"
  "reconnect_attempts (handle_message t l m) = reconnect_attempts m"
  by (simp_all add: handle_message_def Let_def split: option.splits)

lemma fold_handle_fields [simp]:
  "mode (fold (\<lambda>l. handle_message t (Some l)) ls m) = mode m"
  "running (fold (\<lambda>l. handle_message t (Some l)) ls m) = running m"
  "websocket_loop_alive (fold (\<lambda>l. handle_message t (Some l)) ls m) = websocket_loop_alive m"
  "connect_calls (fold (\<lambda>l. handle_message t (Some l)) ls m) = connect_calls m"
  "polling_loops (fold (\<lambda>l. handle_message t (Some l)) ls m) = polling_loops m"
  "subscribed_markets (fold (\<lambda>l. handle_message t (Some l)) ls m) = subscribed_markets m"
  "ws (fold (\<lambda>l. handle_message t (Some l)) ls m) = ws m"
  "max_reconnect_attempts (fold (\<lambda>l. handle_message t (Some l)) ls m) = max_reconnect_attempts m"
  "reconnect_attempts (fold (\<lambda>l. handle_message t (Some l)) ls m) = reconnect_attempts m"
  by (induction ls arbitrary: m) simp_all

lemma polling_step:
  assumes "polling_for_good m" "\<not> is_stop c"
  shows "polling_for_good (ws_step c m) \<and> connect_calls (ws_step c m) = connect_calls m"
  using assms
  by (cases c) (auto simp: polling_for_good_def ws_defs Let_def split: option.splits)

lemma polling_run:
  assumes "polling_for_good m" "\<forall>c \<in> set cs. \<not> is_stop c"
  shows "polling_for_good (run_ws cs m) \<and> connect_calls (run_ws cs m) = connect_calls m"
  using assms
proof (induction cs arbitrary: m)
  case Nil
  then show ?case by (simp add: run_ws_def)
next
  case (Cons c cs)
  from polling_step[of m c] Cons.prems
  have 1: "polling_for_good (ws_step c m)" "connect_calls (ws_step c m) = connect_calls m" by auto
  from Cons.IH[OF 1(1)] Cons.prems 1(2) show ?case by (simp add: run_ws_def)
qed

lemma no_reconnection_step:
  assumes "websocket_loop_alive m" "running m" "socket_down m" "no_reconnection c"
      and "is_loop_pass c \<longrightarrow> reconnect_attempts m < max_reconnect_attempts m"
  shows "websocket_loop_alive (ws_step c m) \<and> running (ws_step c m) \<and> socket_down (ws_step c m)
       \<and> max_reconnect_attempts (ws_step c m) = max_reconnect_attempts m
       \<and> reconnect_attempts (ws_step c m)
           = reconnect_attempts m + (if is_loop_pass c then 1 else 0)
       \<and> connect_calls (ws_step c m) = connect_calls m + (if is_loop_pass c then 1 else 0)"
  using assms
  by (cases c) (auto simp: socket_down_def ws_defs Let_def split: option.splits)

lemma no_reconnection_run:
  assumes "websocket_loop_alive m" "running m" "socket_down m" "\<forall>c \<in> set cs. no_reconnection c"
      and "reconnect_attempts m + int (length (filter is_loop_pass cs)) \<le> max_reconnect_attempts m"
  shows "websocket_loop_alive (run_ws cs m) \<and> running (run_ws cs m) \<and> socket_down (run_ws cs m)
       \<and> max_reconnect_attempts (run_ws cs m) = max_reconnect_attempts m
       \<and> reconnect_attempts (run_ws cs m)
           = reconnect_attempts m + int (length (filter is_loop_pass cs))
       \<and> connect_calls (run_ws cs m) = connect_calls m + length (filter is_loop_pass cs)"
  using assms
proof (induction cs arbitrary: m)
  case Nil
  then show ?case by (simp add: run_ws_def)
next
  case (Cons c cs)
  have lt: "is_loop_pass c \<longrightarrow> reconnect_attempts m < max_reconnect_attempts m"
    using Cons.prems(5) by auto
  from no_reconnection_step[OF Cons.prems(1-3) _ lt] Cons.prems(4)
  have st: "websocket_loop_alive (ws_step c m)" "running (ws_step c m)" "socket_down (ws_step c m)"
    "max_reconnect_attempts (ws_step c m) = max_reconnect_attempts m"
    "reconnect_attempts (ws_step c m) = reconnect_attempts m + (if is_loop_pass c then 1 else 0)"
    "connect_calls (ws_step c m) = connect_calls m + (if is_loop_pass c then 1 else 0)"
    by auto
  have "reconnect_attempts (ws_step c m) + int (length (filter is_loop_pass cs))
          \<le> max_reconnect_attempts (ws_step c m)"
    using st(4,5) Cons.prems(5) by auto
  from Cons.IH[OF st(1-3) _ this] Cons.prems(4) st(4,5,6)
  show ?case by (auto simp: run_ws_def)
qed

lemma give_up_pass:
  assumes "websocket_loop_alive m" "running m" "socket_down m"
      and "max_reconnect_attempts m \<le> reconnect_attempts m"
  shows "polling_for_good (websocket_loop_pass now ok msg m)
       \<and> connect_calls (websocket_loop_pass now ok msg m) = connect_calls m
       \<and> polling_loops (websocket_loop_pass now ok msg m) = polling_loops m + 1"
  using assms by (auto simp: polling_for_good_def socket_down_def ws_defs)

lemma run_ws_append: "run_ws (xs @ ys) m = run_ws ys (run_ws xs m)"
  by (simp add: run_ws_def)

text \<open>
  C8.  Take a running manager whose socket loop is alive and whose socket is down, and any
  steps in which no reconnection succeeds and the failed attempts bring
  \<open>reconnect_attempts\<close> up to \<open>max_reconnect_attempts\<close>.  The next pass of the loop
  switches to polling, and after any later steps short of a stop the mode is still
  \<open>REST_POLLING\<close>, no further connection has been attempted, and \<^verbatim>\<open>subscribe_market\<close> and
  \<^verbatim>\<open>unsubscribe_market\<close> add and remove their token in the set the polling loop reads.
\<close>

theorem fallback_to_polling_is_permanent:
  assumes "websocket_loop_alive m" "running m" "socket_down m"
      and "\<forall>c \<in> set failing. no_reconnection c"
      and "reconnect_attempts m + int (length (filter is_loop_pass failing)) = max_reconnect_attempts m"
      and "\<forall>c \<in> set later. \<not> is_stop c"
  shows "mode (run_ws (failing @ [LoopPass now ok msg] @ later) m) = REST_POLLING
       \<and> connect_calls (run_ws (failing @ [LoopPass now ok msg] @ later) m)
           = connect_calls m + length (filter is_loop_pass failing)
       \<and> subscribed_markets (subscribe_market s tok (run_ws (failing @ [LoopPass now ok msg] @ later) m))
           = insert tok (subscribed_markets (run_ws (failing @ [LoopPass now ok msg] @ later) m))
       \<and> subscribed_markets (unsubscribe_market s tok (run_ws (failing @ [LoopPass now ok msg] @ later) m))
           = subscribed_markets (run_ws (failing @ [LoopPass now ok msg] @ later) m) - {tok}
       \<and> mode (subscribe_market s tok (run_ws (failing @ [LoopPass now ok msg] @ later) m)) = REST_POLLING
       \<and> mode (unsubscribe_market s tok (run_ws (failing @ [LoopPass now ok msg] @ later) m)) = REST_POLLING"
proof -
  let ?m1 = "run_ws failing m"
  let ?m2 = "websocket_loop_pass now ok msg ?m1"
  let ?m3 = "run_ws later ?m2"
  have le: "reconnect_attempts m + int (length (filter is_loop_pass failing)) \<le> max_reconnect_attempts m"
    using assms(5) by simp
  from no_reconnection_run[OF assms(1-4) le] assms(5)
  have m1: "websocket_loop_alive ?m1" "running ?m1" "socket_down ?m1"
    "max_reconnect_attempts ?m1 \<le> reconnect_attempts ?m1"
    "connect_calls ?m1 = connect_calls m + length (filter is_loop_pass failing)"
    by auto
  from give_up_pass[OF m1(1-4), of now ok msg]
  have m2: "polling_for_good ?m2" "connect_calls ?m2 = connect_calls ?m1" by auto
  from polling_run[OF m2(1) assms(6)]
  have m3: "polling_for_good ?m3" "connect_calls ?m3 = connect_calls ?m2" by auto
  have eq: "run_ws (failing @ [LoopPass now ok msg] @ later) m = ?m3"
    by (simp add: run_ws_def)
  have sub: "subscribed_markets (subscribe_market s tok ?m3) = insert tok (subscribed_markets ?m3)"
    "subscribed_markets (unsubscribe_market s tok ?m3) = subscribed_markets ?m3 - {tok}"
    by (auto simp: subscribe_market_def unsubscribe_market_def Let_def)
  have md: "mode (subscribe_market s tok ?m3) = REST_POLLING"
    "mode (unsubscribe_market s tok ?m3) = REST_POLLING"
    using m3(1) by (auto simp: polling_for_good_def subscribe_market_def unsubscribe_market_def Let_def)
  show ?thesis
    unfolding eq using m3 m2(2) m1(5) sub md by (simp add: polling_for_good_def)
qed

lemma dropped_manager_eval:
  "websocket_loop_alive dropped_manager \<and> running dropped_manager \<and> socket_down dropped_manager
   \<and> reconnect_attempts dropped_manager = 0 \<and> max_reconnect_attempts dropped_manager = 2
   \<and> connect_calls dropped_manager = 1 \<and> mode dropped_manager = WEBSOCKET"
  by (simp add: dropped_manager_def socket_down_def ws_defs)

text \<open>
  C8 on the dropped manager: two failed reconnections, the pass that gives up (its
  connection would have succeeded, but is not tried), then a subscription, a polling pass,
  an unsubscription, a second \<^verbatim>\<open>start\<close> and one more pass of the dead loop.
\<close>

theorem fallback_to_polling_is_permanent_witness:
  "websocket_loop_alive dropped_manager \<and> running dropped_manager \<and> socket_down dropped_manager
   \<and> list_all no_reconnection failing_calls
   \<and> reconnect_attempts dropped_manager + int (length (filter is_loop_pass failing_calls))
        = max_reconnect_attempts dropped_manager
   \<and> list_all (\<lambda>c. \<not> is_stop c) later_calls
   \<and> mode (run_ws (failing_calls @ [LoopPass 3 True OtherFrame] @ later_calls) dropped_manager)
        = REST_POLLING
   \<and> connect_calls (run_ws (failing_calls @ [LoopPass 3 True OtherFrame] @ later_calls) dropped_manager)
        = 3
   \<and> subscribed_markets
        (run_ws (failing_calls @ [LoopPass 3 True OtherFrame] @ later_calls) dropped_manager)
        = {''tok2'', ''tok3''}"
proof -
  have h: "websocket_loop_alive dropped_manager" "running dropped_manager" "socket_down dropped_manager"
    "reconnect_attempts dropped_manager + int (length (filter is_loop_pass failing_calls))
        = max_reconnect_attempts dropped_manager"
    using dropped_manager_eval by (simp_all add: failing_calls_def)
  have f: "\<forall>c \<in> set failing_calls. no_reconnection c" by (simp add: failing_calls_def)
  have l: "\<forall>c \<in> set later_calls. \<not> is_stop c" by (simp add: later_calls_def)
  have sm: "subscribed_markets
        (run_ws (failing_calls @ [LoopPass 3 True OtherFrame] @ later_calls) dropped_manager)
        = {''tok2'', ''tok3''}"
    by (auto simp: dropped_manager_def failing_calls_def later_calls_def ws_defs)
  from fallback_to_polling_is_permanent[OF h(1-3) f h(4) l, of 3 True OtherFrame] h f l sm dropped_manager_eval
  show ?thesis by (simp add: failing_calls_def list_all_iff)
qed

section \<open>Properties of the strategy orchestrator\<close>

lemma scan_phase_found:
  "fst (scan_phase ss (opps, st)) = opps @ concat (map found ss)"
  by (induction ss arbitrary: opps st)
     (auto simp: found_def Let_def split: sum.splits option.splits)

lemma execute_opportunities_calls:
  "\<exists>ext. snd (result_of (execute_opportunities orch dry k opps (st, calls))) = calls @ ext
        \<and> (\<forall>x \<in> set ext. x \<in> set opps \<and> get_strategy_key (fst x) = k \<and> 0 < allocated_for orch (fst x))"
proof (induction opps arbitrary: st calls)
  case Nil
  then show ?case by (simp add: result_of_def)
next
  case (Cons o' opps)
  obtain s g where o': "o' = (s, g)" by (cases o')
  show ?case
  proof (cases "get_strategy_key s = k \<and> 0 < allocated_for orch s")
    case False
    then have "execute_opportunities orch dry k (o' # opps) (st, calls)
                = execute_opportunities orch dry k opps (st, calls)"
      using o' by (auto simp: allocated_for_def Let_def)
    with Cons.IH[of st calls] show ?thesis by auto
  next
    case True
    show ?thesis
    proof (cases "execute_trade s g dry")
      case (Inl e)
      have "execute_opportunities orch dry k (o' # opps) (st, calls) = Inl (st, calls @ [(s, g)])"
        using True o' Inl by (auto simp: allocated_for_def Let_def)
      with True o' show ?thesis by (simp add: result_of_def)
    next
      case (Inr pid)
      let ?st = "if truthy pid then st\<lparr>trades_executed := trades_executed st + 1\<rparr> else st"
      have "execute_opportunities orch dry k (o' # opps) (st, calls)
            = execute_opportunities orch dry k opps (?st, calls @ [(s, g)])"
        using Inr True o' by (auto simp: allocated_for_def Let_def)
      moreover from Cons.IH[of ?st "calls @ [(s, g)]"] obtain ext where
        "snd (result_of (execute_opportunities orch dry k opps (?st, calls @ [(s, g)]))) = (calls @ [(s, g)]) @ ext"
        "\<forall>x \<in> set ext. x \<in> set opps \<and> get_strategy_key (fst x) = k \<and> 0 < allocated_for orch (fst x)"
        by blast
      ultimately show ?thesis using True o'
        by (intro exI[of _ "(s, g) # ext"]) auto
    qed
  qed
qed

lemma rank_Cons_other: "x \<noteq> k \<Longrightarrow> rank (k # ks) x = Suc (rank ks x)"
  by (simp add: rank_def)

lemma rank_Cons_same: "rank (k # ks) k = 0"
  by (simp add: rank_def)

lemma execute_phase_calls:
  "distinct ks \<Longrightarrow>
   \<exists>ext. snd (result_of (execute_phase orch dry ks opps (st, calls))) = calls @ ext
        \<and> (\<forall>x \<in> set ext. x \<in> set opps \<and> get_strategy_key (fst x) \<in> set ks \<and> 0 < allocated_for orch (fst x))
        \<and> sorted (map (\<lambda>x. rank ks (get_strategy_key (fst x))) ext)"
proof (induction ks arbitrary: st calls)
  case Nil
  then show ?case by (simp add: result_of_def)
next
  case (Cons k ks)
  obtain e1 where e1: "snd (result_of (execute_opportunities orch dry k opps (st, calls))) = calls @ e1"
    "\<forall>x \<in> set e1. x \<in> set opps \<and> get_strategy_key (fst x) = k \<and> 0 < allocated_for orch (fst x)"
    using execute_opportunities_calls by blast
  have s1: "sorted (map (\<lambda>x. rank (k # ks) (get_strategy_key (fst x))) e1)"
  proof -
    have "map (\<lambda>x. rank (k # ks) (get_strategy_key (fst x))) e1 = replicate (length e1) 0"
      using e1(2) by (auto simp: map_replicate_const[symmetric] rank_Cons_same intro!: map_cong)
    then show ?thesis by (simp add: sorted_replicate)
  qed
  show ?case
  proof (cases "execute_opportunities orch dry k opps (st, calls)")
    case (Inl a)
    with e1 s1 show ?thesis by (auto simp: result_of_def)
  next
    case (Inr a)
    obtain st' calls' where a: "a = (st', calls')" by (cases a)
    with Inr e1 have c': "calls' = calls @ e1" by (simp add: result_of_def)
    from Cons.prems have d: "distinct ks" and kn: "k \<notin> set ks" by auto
    from Cons.IH[OF d, of st' calls'] obtain e2 where e2:
      "snd (result_of (execute_phase orch dry ks opps (st', calls'))) = calls' @ e2"
      "\<forall>x \<in> set e2. x \<in> set opps \<and> get_strategy_key (fst x) \<in> set ks \<and> 0 < allocated_for orch (fst x)"
      "sorted (map (\<lambda>x. rank ks (get_strategy_key (fst x))) e2)" by blast
    have m2: "map (\<lambda>x. rank (k # ks) (get_strategy_key (fst x))) e2
               = map (\<lambda>x. Suc (rank ks (get_strategy_key (fst x)))) e2"
    proof (rule map_cong[OF refl])
      fix x assume "x \<in> set e2"
      with e2(2) kn have "get_strategy_key (fst x) \<noteq> k" by auto
      then show "rank (k # ks) (get_strategy_key (fst x)) = Suc (rank ks (get_strategy_key (fst x)))"
        by (rule rank_Cons_other)
    qed
    have s2: "sorted (map (\<lambda>x. rank (k # ks) (get_strategy_key (fst x))) e2)"
      unfolding m2 using e2(3) by (simp add: sorted_iff_nth_mono)
    have s12: "sorted (map (\<lambda>x. rank (k # ks) (get_strategy_key (fst x))) (e1 @ e2))"
      using s1 s2 e1(2) by (auto simp: sorted_append rank_Cons_same)
    from Inr a e2(1) c' have "snd (result_of (execute_phase orch dry (k # ks) opps (st, calls))) = calls @ (e1 @ e2)"
      by simp
    with e1(2) e2(2) s12 show ?thesis by (intro exI[of _ "e1 @ e2"]) auto
  qed
qed

lemma run_cycle_calls:
  "snd (run_cycle dry orch) =
     snd (result_of (execute_phase orch dry priority_order (concat (map found (strategies orch)))
        (snd (scan_phase (strategies orch) ([], \<lparr>opportunities_found = 0, trades_executed = 0, positions_closed = 0, strategies_active = 0\<rparr>)), [])))"
proof -
  obtain opps st where sp: "scan_phase (strategies orch) ([], \<lparr>opportunities_found = 0, trades_executed = 0, positions_closed = 0, strategies_active = 0\<rparr>) = (opps, st)"
    by (cases "scan_phase (strategies orch) ([], \<lparr>opportunities_found = 0, trades_executed = 0, positions_closed = 0, strategies_active = 0\<rparr>)")
  with scan_phase_found[of "strategies orch" "[]"] have "opps = concat (map found (strategies orch))" by (metis append_Nil fst_conv)
  with sp show ?thesis
    by (auto simp: run_cycle_def result_of_def split: sum.splits prod.splits)
qed

lemma run_cycle_sorted:
  "sorted (map (\<lambda>x. rank priority_order (get_strategy_key (fst x))) (snd (run_cycle dry orch)))
   \<and> (\<forall>x \<in> set (snd (run_cycle dry orch)). x \<in> set (concat (map found (strategies orch))) \<and> 0 < allocated_for orch (fst x))"
proof -
  have "distinct priority_order" by (simp add: priority_order_def)
  from execute_phase_calls[OF this] show ?thesis unfolding run_cycle_calls
    by (metis append_Nil)
qed


lemma found_set:
  "x \<in> set (concat (map found ss)) \<longleftrightarrow>
     fst x \<in> set ss \<and> is_enabled (fst x) \<and> scan_opportunities (fst x) = Inr (Some (snd x))"
  by (cases x) (auto simp: found_def split: sum.splits option.splits if_splits)

lemma execute_opportunities_all:
  assumes "\<forall>x \<in> set opps. \<forall>e. execute_trade (fst x) (snd x) dry \<noteq> Inl e"
  shows "\<exists>st'. execute_opportunities orch dry k opps (st, calls) =
           Inr (st', calls @ filter (\<lambda>x. get_strategy_key (fst x) = k \<and> 0 < allocated_for orch (fst x)) opps)"
  using assms
proof (induction opps arbitrary: st calls)
  case Nil
  then show ?case by simp
next
  case (Cons o' opps)
  obtain s g where o': "o' = (s, g)" by (cases o')
  show ?case
  proof (cases "get_strategy_key s = k \<and> 0 < allocated_for orch s")
    case False
    then have "execute_opportunities orch dry k (o' # opps) (st, calls)
                = execute_opportunities orch dry k opps (st, calls)"
      using o' by (auto simp: allocated_for_def Let_def)
    with Cons.IH[of st calls] Cons.prems False o' show ?thesis by auto
  next
    case True
    from Cons.prems o' obtain pid where pid: "execute_trade s g dry = Inr pid"
      by (cases "execute_trade s g dry") auto
    let ?st = "if truthy pid then st\<lparr>trades_executed := trades_executed st + 1\<rparr> else st"
    have "execute_opportunities orch dry k (o' # opps) (st, calls)
            = execute_opportunities orch dry k opps (?st, calls @ [(s, g)])"
      using pid True o' by (auto simp: allocated_for_def Let_def)
    with Cons.IH[of ?st "calls @ [(s, g)]"] Cons.prems True o' show ?thesis by auto
  qed
qed

lemma execute_phase_all:
  assumes "\<forall>x \<in> set opps. \<forall>e. execute_trade (fst x) (snd x) dry \<noteq> Inl e"
  shows "\<exists>st'. execute_phase orch dry ks opps (st, calls) =
           Inr (st', calls @ concat (map (\<lambda>k. filter (\<lambda>x. get_strategy_key (fst x) = k \<and> 0 < allocated_for orch (fst x)) opps) ks))"
proof (induction ks arbitrary: st calls)
  case Nil
  then show ?case by simp
next
  case (Cons k ks)
  from execute_opportunities_all[OF assms, of orch k st calls] obtain st1 where
    1: "execute_opportunities orch dry k opps (st, calls) =
           Inr (st1, calls @ filter (\<lambda>x. get_strategy_key (fst x) = k \<and> 0 < allocated_for orch (fst x)) opps)"
    by blast
  from Cons.IH[of st1 "calls @ filter (\<lambda>x. get_strategy_key (fst x) = k \<and> 0 < allocated_for orch (fst x)) opps"] 1
  show ?case by auto
qed

lemma run_cycle_all:
  assumes "\<forall>s \<in> set (strategies orch). \<forall>g e. execute_trade s g dry \<noteq> Inl e"
      and "x \<in> set (concat (map found (strategies orch)))"
      and "get_strategy_key (fst x) \<in> set priority_order" "0 < allocated_for orch (fst x)"
  shows "x \<in> set (snd (run_cycle dry orch))"
proof -
  have "\<forall>x \<in> set (concat (map found (strategies orch))). \<forall>e. execute_trade (fst x) (snd x) dry \<noteq> Inl e"
    using assms(1) found_set by blast
  from execute_phase_all[OF this, of orch priority_order _ "[]"]
  obtain st' where
    "execute_phase orch dry priority_order (concat (map found (strategies orch)))
        (snd (scan_phase (strategies orch)
               ([], \<lparr>opportunities_found = 0, trades_executed = 0, positions_closed = 0,
                     strategies_active = 0\<rparr>)), [])
      = Inr (st', [] @ concat (map (\<lambda>k. filter (\<lambda>x. get_strategy_key (fst x) = k
                 \<and> 0 < allocated_for orch (fst x)) (concat (map found (strategies orch))))
               priority_order))"
    by blast
  then have "snd (run_cycle dry orch)
      = concat (map (\<lambda>k. filter (\<lambda>x. get_strategy_key (fst x) = k
                 \<and> 0 < allocated_for orch (fst x)) (concat (map found (strategies orch))))
               priority_order)"
    unfolding run_cycle_calls by (simp add: result_of_def)
  moreover have "x \<in> set (concat (map (\<lambda>k. filter (\<lambda>x. get_strategy_key (fst x) = k
                 \<and> 0 < allocated_for orch (fst x)) (concat (map found (strategies orch))))
               priority_order))"
    using assms(2-4) by auto
  ultimately show ?thesis by simp
qed

text \<open>
  C9.  In the calls of \<^verbatim>\<open>execute_trade\<close> that a cycle makes, every call for a strategy of
  key \<^verbatim>\<open>latency\<close> comes before every call for a strategy of key \<^verbatim>\<open>maker\<close>, in whatever order
  \<^verbatim>\<open>self.strategies\<close> lists them.  And when a latency strategy and a maker strategy both
  produced a signal, both have capital and no \<^verbatim>\<open>execute_trade\<close> raises, both signals are
  executed, the latency one first.
\<close>

theorem latency_executes_before_maker:
  assumes "sl \<in> set (strategies orch)" "sm \<in> set (strategies orch)"
      and "is_enabled sl" "is_enabled sm"
      and "scan_opportunities sl = Inr (Some gl)" "scan_opportunities sm = Inr (Some gm)"
      and "get_strategy_key sl = ''latency''" "get_strategy_key sm = ''maker''"
  shows "(\<forall>i j. i < length (snd (run_cycle dry orch)) \<and> j < length (snd (run_cycle dry orch))
              \<and> get_strategy_key (fst (snd (run_cycle dry orch) ! i)) = ''latency''
              \<and> get_strategy_key (fst (snd (run_cycle dry orch) ! j)) = ''maker'' \<longrightarrow> i < j)
       \<and> (0 < allocated_for orch sl \<and> 0 < allocated_for orch sm
            \<and> (\<forall>s \<in> set (strategies orch). \<forall>g e. execute_trade s g dry \<noteq> Inl e)
          \<longrightarrow> (\<exists>i j. i < j \<and> j < length (snd (run_cycle dry orch))
                 \<and> snd (run_cycle dry orch) ! i = (sl, gl)
                 \<and> snd (run_cycle dry orch) ! j = (sm, gm)))"
proof -
  let ?tr = "snd (run_cycle dry orch)"
  have srt: "sorted (map (\<lambda>x. rank priority_order (get_strategy_key (fst x))) ?tr)"
    using run_cycle_sorted by blast
  have rl: "rank priority_order ''latency'' = 0" and rm: "rank priority_order ''maker'' = 2"
    by (simp_all add: rank_def priority_order_def)
  have order: "i < j" if "i < length ?tr" "j < length ?tr"
      "get_strategy_key (fst (?tr ! i)) = ''latency''" "get_strategy_key (fst (?tr ! j)) = ''maker''"
    for i j
  proof (rule ccontr)
    assume "\<not> i < j"
    then have "j \<le> i" by simp
    with srt that(1) have "map (\<lambda>x. rank priority_order (get_strategy_key (fst x))) ?tr ! j
                  \<le> map (\<lambda>x. rank priority_order (get_strategy_key (fst x))) ?tr ! i"
      by (simp add: sorted_iff_nth_mono del: map_map)
    with that rl rm show False by simp
  qed
  have both: "\<exists>i j. i < j \<and> j < length ?tr \<and> ?tr ! i = (sl, gl) \<and> ?tr ! j = (sm, gm)"
    if cap: "0 < allocated_for orch sl" "0 < allocated_for orch sm"
      and nr: "\<forall>s \<in> set (strategies orch). \<forall>g e. execute_trade s g dry \<noteq> Inl e"
  proof -
    have "(sl, gl) \<in> set (concat (map found (strategies orch)))"
         "(sm, gm) \<in> set (concat (map found (strategies orch)))"
      using assms(1-6) found_set[of "(sl, gl)" "strategies orch"]
        found_set[of "(sm, gm)" "strategies orch"] by simp_all
    then have "(sl, gl) \<in> set ?tr" "(sm, gm) \<in> set ?tr"
      using run_cycle_all[OF nr] cap assms(7,8) by (simp_all add: priority_order_def)
    then obtain i j where ij: "i < length ?tr" "?tr ! i = (sl, gl)" "j < length ?tr" "?tr ! j = (sm, gm)"
      by (auto simp: in_set_conv_nth)
    with order[of i j] assms(7,8) have "i < j" by simp
    with ij show ?thesis by blast
  qed
  from order both show ?thesis by blast
qed

text \<open>
  C2, amended.  \<^verbatim>\<open>run_cycle\<close> has no health monitor: it takes the orchestrator and the
  dry-run flag only.  In every cycle, \<^verbatim>\<open>execute_trade\<close> is called only for a signal that an
  enabled strategy of the orchestrator returned from its scan in this cycle and only when
  the capital allocated to the strategy's key is greater than zero.
\<close>

theorem executes_only_with_capital:
  "\<forall>x \<in> set (snd (run_cycle dry orch)).
     0 < allocated_for orch (fst x) \<and> fst x \<in> set (strategies orch) \<and> is_enabled (fst x)
     \<and> scan_opportunities (fst x) = Inr (Some (snd x))"
  using run_cycle_sorted[of dry orch] found_set by blast

lemma allocate_capital_strategies [simp]: "strategies (allocate_capital al orch) = strategies orch"
proof -
  have "strategies (fold (\<lambda>s o'. case map_of al (get_strategy_key s) of
                     None \<Rightarrow> o'
                   | Some share \<Rightarrow>
                       o'\<lparr>capital_allocated :=
                            AList.update (get_strategy_key s) (total_capital o' * share)
                              (capital_allocated o')\<rparr>) ss orch) = strategies orch" for ss
    by (induction ss arbitrary: orch) (auto split: option.splits)
  then show ?thesis by (simp add: allocate_capital_def)
qed

lemma example_keys:
  "get_strategy_key (simple_strategy ''MakerStrategy'' ''quote'') = ''maker''"
  "get_strategy_key (simple_strategy ''LatencyArbitrageStrategy'' ''spike'') = ''latency''"
  by code_simp+

lemma example_run:
  "map (\<lambda>x. (class_name (fst x), snd x)) (snd (run_cycle False example_orchestrator))
     = [(''LatencyArbitrageStrategy'', ''spike''), (''MakerStrategy'', ''quote'')]"
  by code_simp

lemma example_capital:
  "capital_allocated example_orchestrator = [(''maker'', 400), (''latency'', 200)]"
  by code_simp


lemma example_strategies:
  "strategies example_orchestrator =
     [simple_strategy ''MakerStrategy'' ''quote'',
      simple_strategy ''LatencyArbitrageStrategy'' ''spike'']"
  by (simp add: example_orchestrator_def StrategyOrchestrator_def)

lemma example_allocated:
  "allocated_for example_orchestrator (simple_strategy ''MakerStrategy'' ''quote'') = 400"
  "allocated_for example_orchestrator (simple_strategy ''LatencyArbitrageStrategy'' ''spike'') = 200"
  by (simp_all add: allocated_for_def example_keys example_capital)

text \<open>
  C9 on the example orchestrator, which discovers the maker signal first: the latency
  signal is executed before it.
\<close>

theorem latency_executes_before_maker_witness:
  "simple_strategy ''LatencyArbitrageStrategy'' ''spike'' \<in> set (strategies example_orchestrator)
   \<and> simple_strategy ''MakerStrategy'' ''quote'' \<in> set (strategies example_orchestrator)
   \<and> is_enabled (simple_strategy ''LatencyArbitrageStrategy'' ''spike'')
   \<and> is_enabled (simple_strategy ''MakerStrategy'' ''quote'')
   \<and> scan_opportunities (simple_strategy ''LatencyArbitrageStrategy'' ''spike'') = Inr (Some ''spike'')
   \<and> scan_opportunities (simple_strategy ''MakerStrategy'' ''quote'') = Inr (Some ''quote'')
   \<and> get_strategy_key (simple_strategy ''LatencyArbitrageStrategy'' ''spike'') = ''latency''
   \<and> get_strategy_key (simple_strategy ''MakerStrategy'' ''quote'') = ''maker''
   \<and> 0 < allocated_for example_orchestrator (simple_strategy ''LatencyArbitrageStrategy'' ''spike'')
   \<and> 0 < allocated_for example_orchestrator (simple_strategy ''MakerStrategy'' ''quote'')
   \<and> list_all (\<lambda>s. \<forall>g e. execute_trade s g False \<noteq> Inl e) (strategies example_orchestrator)
   \<and> (\<exists>i j. i < j \<and> j < length (snd (run_cycle False example_orchestrator))
          \<and> snd (run_cycle False example_orchestrator) ! i
              = (simple_strategy ''LatencyArbitrageStrategy'' ''spike'', ''spike'')
          \<and> snd (run_cycle False example_orchestrator) ! j
              = (simple_strategy ''MakerStrategy'' ''quote'', ''quote''))"
proof -
  let ?sl = "simple_strategy ''LatencyArbitrageStrategy'' ''spike''"
  let ?sm = "simple_strategy ''MakerStrategy'' ''quote''"
  have m: "?sl \<in> set (strategies example_orchestrator)" "?sm \<in> set (strategies example_orchestrator)"
    by (simp_all add: example_strategies)
  have e: "is_enabled ?sl" "is_enabled ?sm"
    by (simp_all add: is_enabled_def simple_strategy_def)
  have sc: "scan_opportunities ?sl = Inr (Some ''spike'')" "scan_opportunities ?sm = Inr (Some ''quote'')"
    by (simp_all add: simple_strategy_def)
  have nr: "\<forall>s \<in> set (strategies example_orchestrator). \<forall>g e. execute_trade s g False \<noteq> Inl e"
    by (simp add: example_strategies simple_strategy_def)
  from latency_executes_before_maker[OF m e sc example_keys(2) example_keys(1), of False]
    m e sc example_keys example_allocated nr
  show ?thesis by (simp add: list_all_iff)
qed

text \<open>The amended C2 on the example orchestrator, whose cycle does execute trades.\<close>

theorem executes_only_with_capital_witness:
  "snd (run_cycle False example_orchestrator) \<noteq> []
   \<and> list_all
         (\<lambda>x. 0 < allocated_for example_orchestrator (fst x)
              \<and> fst x \<in> set (strategies example_orchestrator) \<and> is_enabled (fst x)
              \<and> scan_opportunities (fst x) = Inr (Some (snd x)))
         (snd (run_cycle False example_orchestrator))"
proof -
  have "length (map (\<lambda>x. (class_name (fst x), snd x)) (snd (run_cycle False example_orchestrator))) = 2"
    unfolding example_run by simp
  then have "snd (run_cycle False example_orchestrator) \<noteq> []" by auto
  with executes_only_with_capital[of False example_orchestrator] show ?thesis
    by (simp add: list_all_iff)
qed

text \<open>
  C2, as stated, fails: while the connection pool's circuit is open (\<^verbatim>\<open>can_execute\<close> is
  false), a cycle of the example orchestrator executes both signals; nothing in
  \<^verbatim>\<open>run_cycle\<close> reads or writes a pool.
\<close>

theorem executes_with_open_circuit:
  "\<not> can_execute opened_pool
   \<and> map (\<lambda>x. (class_name (fst x), snd x)) (snd (run_cycle False example_orchestrator))
       = [(''LatencyArbitrageStrategy'', ''spike''), (''MakerStrategy'', ''quote'')]
   \<and> trades_executed (fst (run_cycle False example_orchestrator)) = 2"
proof -
  have "\<not> can_execute opened_pool"
    by (simp add: opened_pool_def can_execute_def pool_defs numeral_eq_Suc)
  moreover have "trades_executed (fst (run_cycle False example_orchestrator)) = 2" by code_simp
  ultimately show ?thesis using example_run by simp
qed

end
